theory Spec2Isabelle
  imports
    Complex_Main
    "HOL-Library.Multiset"
    "HOL-Library.Product_Lexorder"
    "HOL-Library.List_Lexorder"
    "HOL-Library.Char_ord"
begin

section \<open>The heap queue operations used by the callback\<close>

text \<open>
  The callback keeps its retained checkpoints in a Python list that it only touches through
  \<^verbatim>\<open>heapq.heappush\<close> and \<^verbatim>\<open>heapq.heappushpop\<close>. Both are modelled after
  the standard library's \<^verbatim>\<open>heapq.py\<close>: a Python list is a HOL list, a position is a
  natural number, and each \<^verbatim>\<open>while\<close> loop is a recursive function that returns the
  list and the position at which the loop stopped. The comparison \<^verbatim>\<open><\<close> of two
  elements is the parameter \<open>lt\<close>: Python hands it to the elements themselves, and for the
  tuples of the callback it is not a linear order once a score is not a number.

  Every index read by these functions is in range: the loops guard their reads
  (\<^verbatim>\<open>pos > startpos\<close>, \<^verbatim>\<open>childpos < endpos\<close>, \<^verbatim>\<open>rightpos < endpos\<close>),
  \<^verbatim>\<open>heappush\<close> sifts from the last position of a list it has just extended, and
  \<^verbatim>\<open>heappushpop\<close> sifts from position 0 of a list it has found non-empty.
\<close>

function siftdown_loop :: "('a \<Rightarrow> 'a \<Rightarrow> bool) \<Rightarrow> 'a list \<Rightarrow> nat \<Rightarrow> 'a \<Rightarrow> nat \<Rightarrow> 'a list \<times> nat" where
  "siftdown_loop lt heap startpos newitem pos =
     (if pos > startpos then
        (let parentpos = (pos - 1) div 2;
             parent = heap ! parentpos
         in if lt newitem parent
            then siftdown_loop lt (heap[pos := parent]) startpos newitem parentpos
            else (heap, pos))
      else (heap, pos))"
  by pat_completeness auto
termination
  by (relation "measure (\<lambda>(lt, heap, startpos, newitem, pos). pos)") auto

declare siftdown_loop.simps [simp del]

definition siftdown :: "('a \<Rightarrow> 'a \<Rightarrow> bool) \<Rightarrow> 'a list \<Rightarrow> nat \<Rightarrow> nat \<Rightarrow> 'a list" where
  "siftdown lt heap startpos pos =
     (let newitem = heap ! pos;
          (heap', pos') = siftdown_loop lt heap startpos newitem pos
      in heap'[pos' := newitem])"

function siftup_loop :: "('a \<Rightarrow> 'a \<Rightarrow> bool) \<Rightarrow> 'a list \<Rightarrow> nat \<Rightarrow> nat \<Rightarrow> 'a list \<times> nat" where
  "siftup_loop lt heap endpos pos =
     (let childpos = 2 * pos + 1
      in if childpos < endpos then
           (let rightpos = childpos + 1;
                childpos' = (if rightpos < endpos \<and> \<not> lt (heap ! childpos) (heap ! rightpos)
                             then rightpos else childpos)
            in siftup_loop lt (heap[pos := heap ! childpos']) endpos childpos')
         else (heap, pos))"
  by pat_completeness auto
termination
  by (relation "measure (\<lambda>(lt, heap, endpos, pos). endpos - pos)") (auto simp: Let_def)

declare siftup_loop.simps [simp del]

definition siftup :: "('a \<Rightarrow> 'a \<Rightarrow> bool) \<Rightarrow> 'a list \<Rightarrow> nat \<Rightarrow> 'a list" where
  "siftup lt heap pos =
     (let endpos = length heap;
          startpos = pos;
          newitem = heap ! pos;
          (heap', pos') = siftup_loop lt heap endpos pos
      in siftdown lt (heap'[pos' := newitem]) startpos pos')"

definition heappush :: "('a \<Rightarrow> 'a \<Rightarrow> bool) \<Rightarrow> 'a list \<Rightarrow> 'a \<Rightarrow> 'a list" where
  "heappush lt heap item =
     (let heap' = heap @ [item] in siftdown lt heap' 0 (length heap' - 1))"

text \<open>\<^verbatim>\<open>heappushpop\<close> returns the item handed back to the caller and the list as it leaves it.\<close>

definition heappushpop :: "('a \<Rightarrow> 'a \<Rightarrow> bool) \<Rightarrow> 'a list \<Rightarrow> 'a \<Rightarrow> 'a \<times> 'a list" where
  "heappushpop lt heap item =
     (if heap \<noteq> [] \<and> lt (heap ! 0) item
      then (heap ! 0, siftup lt (heap[0 := item]) 0)
      else (item, heap))"


section \<open>Floats and the tuples of the tracker\<close>

text \<open>
  A monitored value is a Python float: a finite number, read as the real it denotes, one of
  the two infinities, or NaN. The only arithmetic the callback does on it is the product
  with its coefficient, a finite float that the constructor sets to \<open>1.0\<close> or \<open>-1.0\<close>; on
  these the product of a finite value is exact. Comparisons follow IEEE 754 as Python
  exposes it: NaN is neither below, nor above, nor equal to anything, itself included.
\<close>

datatype pyfloat = Finite real | PosInf | NegInf | NaN

fun float_lt :: "pyfloat \<Rightarrow> pyfloat \<Rightarrow> bool" where
  "float_lt NaN y = False"
| "float_lt x NaN = False"
| "float_lt (Finite x) (Finite y) = (x < y)"
| "float_lt (Finite x) PosInf = True"
| "float_lt (Finite x) NegInf = False"
| "float_lt PosInf y = False"
| "float_lt NegInf NegInf = False"
| "float_lt NegInf y = True"

fun float_eq :: "pyfloat \<Rightarrow> pyfloat \<Rightarrow> bool" where
  "float_eq NaN y = False"
| "float_eq x NaN = False"
| "float_eq x y = (x = y)"

fun float_mul :: "pyfloat \<Rightarrow> real \<Rightarrow> pyfloat" where
  "float_mul NaN c = NaN"
| "float_mul (Finite x) c = Finite (x * c)"
| "float_mul PosInf c = (if 0 < c then PosInf else if c < 0 then NegInf else NaN)"
| "float_mul NegInf c = (if 0 < c then NegInf else if c < 0 then PosInf else NaN)"

text \<open>
  An entry of the tracker is the tuple (score, epoch, path) the code builds. Python
  compares two tuples by their first components that are not equal, and finds two tuples
  equal when all their components are. Every tuple the callback builds holds a float of
  its own, the result of a product, so no two scores are ever the same object and a NaN
  score makes a tuple unequal to every tuple, also to one rebuilt from the same values.
  Epochs are integers and paths are strings, compared character by character.
\<close>

type_synonym entry = "pyfloat \<times> int \<times> string"

definition entry_eq :: "entry \<Rightarrow> entry \<Rightarrow> bool" where
  "entry_eq a b =
     (float_eq (fst a) (fst b) \<and> fst (snd a) = fst (snd b) \<and> snd (snd a) = snd (snd b))"

definition entry_lt :: "entry \<Rightarrow> entry \<Rightarrow> bool" where
  "entry_lt a b =
     (if \<not> float_eq (fst a) (fst b) then float_lt (fst a) (fst b)
      else if fst (snd a) \<noteq> fst (snd b) then fst (snd a) < fst (snd b)
      else snd (snd a) < snd (snd b))"


section \<open>Strings, paths and path templates\<close>

text \<open>
  Python strings are modelled as HOL strings. The helpers below are the string methods the
  callback uses: \<^verbatim>\<open>s.startswith(p)\<close>, \<^verbatim>\<open>s.endswith(p)\<close>, \<^verbatim>\<open>sub in s\<close>,
  \<^verbatim>\<open>s.rfind(c)\<close> (the highest index of \<^verbatim>\<open>c\<close>, or -1) and \<^verbatim>\<open>s.rstrip(c)\<close>.
\<close>

fun startswith :: "string \<Rightarrow> string \<Rightarrow> bool" where
  "startswith s [] = True"
| "startswith [] (p # ps) = False"
| "startswith (c # cs) (p # ps) = (c = p \<and> startswith cs ps)"

definition endswith :: "string \<Rightarrow> string \<Rightarrow> bool" where
  "endswith s p = startswith (rev s) (rev p)"

fun contains :: "string \<Rightarrow> string \<Rightarrow> bool" where
  "contains [] sub = (sub = [])"
| "contains (c # cs) sub = (startswith (c # cs) sub \<or> contains cs sub)"

fun rfind_from :: "char \<Rightarrow> string \<Rightarrow> int \<Rightarrow> int \<Rightarrow> int" where
  "rfind_from c [] i found = found"
| "rfind_from c (x # xs) i found = rfind_from c xs (i + 1) (if x = c then i else found)"

definition rfind :: "string \<Rightarrow> char \<Rightarrow> int" where
  "rfind s c = rfind_from c s 0 (- 1)"

definition rstrip :: "string \<Rightarrow> char \<Rightarrow> string" where
  "rstrip s c = rev (dropWhile (\<lambda>x. x = c) (rev s))"

text \<open>
  \<^verbatim>\<open>os.path.split\<close>, \<^verbatim>\<open>os.path.splitext\<close> and \<^verbatim>\<open>os.path.join\<close> follow the
  standard library's \<^verbatim>\<open>posixpath.py\<close> and \<^verbatim>\<open>genericpath.py\<close> (separator
  \<^verbatim>\<open>/\<close>, extension separator \<^verbatim>\<open>.\<close>, no alternative separator).
\<close>

definition os_path_split :: "string \<Rightarrow> string \<times> string" where
  "os_path_split p =
     (let i = nat (rfind p CHR ''/'' + 1);
          head = take i p;
          tail = drop i p;
          head' = (if head \<noteq> [] \<and> head \<noteq> replicate (length head) CHR ''/''
                   then rstrip head CHR ''/'' else head)
      in (head', tail))"

function splitext_loop :: "string \<Rightarrow> nat \<Rightarrow> nat \<Rightarrow> bool" where
  "splitext_loop p filenameIndex dotIndex =
     (if filenameIndex < dotIndex then
        (if p ! filenameIndex \<noteq> CHR ''.'' then True
         else splitext_loop p (filenameIndex + 1) dotIndex)
      else False)"
  by pat_completeness auto
termination
  by (relation "measure (\<lambda>(p, filenameIndex, dotIndex). dotIndex - filenameIndex)") auto

declare splitext_loop.simps [simp del]

text \<open>
  \<open>splitext_loop\<close> is the loop that skips leading dots; it answers whether the loop
  returns from inside (a character other than a dot precedes the last dot).
\<close>

definition os_path_splitext :: "string \<Rightarrow> string \<times> string" where
  "os_path_splitext p =
     (let sepIndex = rfind p CHR ''/'';
          dotIndex = rfind p CHR ''.''
      in if dotIndex > sepIndex \<and> splitext_loop p (nat (sepIndex + 1)) (nat dotIndex)
         then (take (nat dotIndex) p, drop (nat dotIndex) p)
         else (p, []))"

definition os_path_join :: "string \<Rightarrow> string \<Rightarrow> string" where
  "os_path_join a b =
     (if startswith b ''/'' then b
      else if a = [] \<or> endswith a ''/'' then a @ b
      else a @ ''/'' @ b)"

subsection \<open>Decimal rendering of integers\<close>

definition digit_char :: "nat \<Rightarrow> char" where
  "digit_char d = ''0123456789'' ! d"

fun digits :: "nat \<Rightarrow> string" where
  "digits n = (if n < 10 then [digit_char n] else digits (n div 10) @ [digit_char (n mod 10)])"

declare digits.simps [simp del]

definition str_int :: "int \<Rightarrow> string" where
  "str_int n = (if n < 0 then CHR ''-'' # digits (nat (- n)) else digits (nat n))"

subsection \<open>Template formatting\<close>

text \<open>
  \<^verbatim>\<open>str.format\<close> is part of the Python runtime. Its scanner is modelled after CPython's
  \<^verbatim>\<open>MarkupIterator_next\<close> and \<^verbatim>\<open>parse_field\<close>: text is copied, \<^verbatim>\<open>{{\<close> and
  \<^verbatim>\<open>}}\<close> are escapes, and a replacement field is a field name, an optional conversion
  after \<^verbatim>\<open>!\<close> and an optional format specification after \<^verbatim>\<open>:\<close> in which braces
  nest. The scanner is a state machine over the characters; it returns the pieces found
  before the first syntax error, and that error if there is one, since Python formats the
  string from left to right and reports whichever failure it meets first.
\<close>

datatype exn = ValueError | KeyError string | TypeError | IndexError | AttributeError

datatype pyval = PInt int | PFloat pyfloat

datatype piece = Lit char | Field string "char option" string

datatype scan_state =
    Text
  | InName string
  | InIndex string
  | AtConv string
  | AfterConv string char
  | InSpec string "char option" string nat

definition emit :: "piece \<Rightarrow> piece list \<times> exn option \<Rightarrow> piece list \<times> exn option" where
  "emit p r = (p # fst r, snd r)"

fun scan :: "scan_state \<Rightarrow> string \<Rightarrow> piece list \<times> exn option" where
  "scan Text [] = ([], None)"
| "scan Text (c # cs) =
     (if c = CHR ''{'' then
        (case cs of
           [] \<Rightarrow> ([], Some ValueError)
         | d # ds \<Rightarrow> if d = CHR ''{'' then emit (Lit CHR ''{'') (scan Text ds)
                     else scan (InName []) cs)
      else if c = CHR ''}'' then
        (case cs of
           [] \<Rightarrow> ([], Some ValueError)
         | d # ds \<Rightarrow> if d = CHR ''}'' then emit (Lit CHR ''}'') (scan Text ds)
                     else ([], Some ValueError))
      else emit (Lit c) (scan Text cs))"
| "scan (InName name) [] = ([], Some ValueError)"
| "scan (InName name) (c # cs) =
     (if c = CHR ''{'' then ([], Some ValueError)
      else if c = CHR ''['' then scan (InIndex (name @ [c])) cs
      else if c = CHR ''}'' then emit (Field name None []) (scan Text cs)
      else if c = CHR '':'' then scan (InSpec name None [] 1) cs
      else if c = CHR ''!'' then scan (AtConv name) cs
      else scan (InName (name @ [c])) cs)"
| "scan (InIndex name) [] = ([], Some ValueError)"
| "scan (InIndex name) (c # cs) =
     (if c = CHR '']'' then scan (InName (name @ [c])) cs
      else scan (InIndex (name @ [c])) cs)"
| "scan (AtConv name) [] = ([], Some ValueError)"
| "scan (AtConv name) (c # cs) = scan (AfterConv name c) cs"
| "scan (AfterConv name cv) [] = ([], Some ValueError)"
| "scan (AfterConv name cv) (c # cs) =
     (if c = CHR ''}'' then emit (Field name (Some cv) []) (scan Text cs)
      else if c = CHR '':'' then scan (InSpec name (Some cv) [] 1) cs
      else ([], Some ValueError))"
| "scan (InSpec name cv spec depth) [] = ([], Some ValueError)"
| "scan (InSpec name cv spec depth) (c # cs) =
     (if c = CHR ''{'' then scan (InSpec name cv (spec @ [c]) (depth + 1)) cs
      else if c = CHR ''}'' then
        (if depth - 1 = 0 then emit (Field name cv spec) (scan Text cs)
         else scan (InSpec name cv (spec @ [c]) (depth - 1)) cs)
      else scan (InSpec name cv (spec @ [c]) depth) cs)"

text \<open>
  A field is \<^emph>\<open>plain\<close> when its name is a keyword (not empty, no attribute or index part,
  not a number), it has no conversion and its specification has no nested field. A plain
  field is looked up among the keyword arguments, and a missing keyword raises
  \<^verbatim>\<open>KeyError\<close>. An integer under the specification \<^verbatim>\<open>d\<close> or the empty one is written
  in decimal. Everything else that Python can do with a replacement field (other
  specifications, floats, conversions, attribute and index access, positional and nested
  fields) is left to the parameter \<open>R\<close>, which stands for the rest of Python's field
  formatting; the theorems hold for every \<open>R\<close>.
\<close>

type_synonym kwargs = "string \<rightharpoonup> pyval"

type_synonym field_formatter = "string \<Rightarrow> char option \<Rightarrow> string \<Rightarrow> kwargs \<Rightarrow> exn + string"

definition is_digit :: "char \<Rightarrow> bool" where
  "is_digit c = (c \<in> set ''0123456789'')"

definition plain :: "string \<Rightarrow> char option \<Rightarrow> string \<Rightarrow> bool" where
  "plain name cv spec =
     (name \<noteq> [] \<and> CHR ''.'' \<notin> set name \<and> CHR ''['' \<notin> set name \<and> \<not> list_all is_digit name
      \<and> cv = None \<and> CHR ''{'' \<notin> set spec)"

definition format_field :: "field_formatter \<Rightarrow> kwargs \<Rightarrow> string \<Rightarrow> char option \<Rightarrow> string \<Rightarrow> exn + string" where
  "format_field R kw name cv spec =
     (if plain name cv spec then
        (case kw name of
           None \<Rightarrow> Inl (KeyError name)
         | Some (PInt n) \<Rightarrow> if spec = [] \<or> spec = ''d'' then Inr (str_int n) else R name cv spec kw
         | Some (PFloat x) \<Rightarrow> R name cv spec kw)
      else R name cv spec kw)"

fun render :: "field_formatter \<Rightarrow> kwargs \<Rightarrow> piece list \<Rightarrow> exn + string" where
  "render R kw [] = Inr []"
| "render R kw (Lit c # ps) =
     (case render R kw ps of Inl e \<Rightarrow> Inl e | Inr s \<Rightarrow> Inr (c # s))"
| "render R kw (Field name cv spec # ps) =
     (case format_field R kw name cv spec of
        Inl e \<Rightarrow> Inl e
      | Inr s \<Rightarrow> (case render R kw ps of Inl e \<Rightarrow> Inl e | Inr t \<Rightarrow> Inr (s @ t)))"

definition str_format :: "field_formatter \<Rightarrow> string \<Rightarrow> kwargs \<Rightarrow> exn + string" where
  "str_format R template kw =
     (let (ps, err) = scan Text template
      in case render R kw ps of
           Inl e \<Rightarrow> Inl e
         | Inr s \<Rightarrow> (case err of Some e \<Rightarrow> Inl e | None \<Rightarrow> Inr s))"


section \<open>The callback\<close>

text \<open>
  The instance attributes of \<^verbatim>\<open>ModelCheckpointTopN\<close> are the fields of a record.
  Epochs and the configured numbers are Python integers, the coefficient is a finite float
  and the tracker is a list of entries.
\<close>

record callback =
  monitor :: string
  verbose :: int
  filepath :: string
  n_models :: int
  save_weights_only :: bool
  period :: int
  epochs_since_last_save :: int
  tracker :: "entry list"
  coef :: real

text \<open>
  What a call does to the outside world is a list of effects, in the order in which the
  code performs them: a call of \<^verbatim>\<open>warnings.warn\<close>, a \<^verbatim>\<open>print\<close> (carrying the scores
  that \<^verbatim>\<open>__show_tracked\<close> lists, in the order of the tracker; the message sorts them,
  and the rest of its text is left out),
  \<^verbatim>\<open>os.remove(path)\<close>, \<^verbatim>\<open>model.save(path)\<close> and \<^verbatim>\<open>model.save_weights(path)\<close>.
  The three file operations are taken to succeed.
\<close>

datatype effect =
    Warn string
  | Print "pyfloat list"
  | Remove string
  | Save string
  | SaveWeights string

definition init :: "string \<Rightarrow> string \<Rightarrow> int \<Rightarrow> int \<Rightarrow> bool \<Rightarrow> string \<Rightarrow> int \<Rightarrow> callback \<times> effect list" where
  "init fp mon verb n weights_only mode per =
     (let (head, tail) = os_path_split fp;
          (model_name, ext) = os_path_splitext tail;
          unknown = (mode \<notin> set [''auto'', ''min'', ''max'']);
          warned = (if unknown
                    then [Warn (''ModelCheckpoint mode '' @ mode @ '' is unknown, fallback to auto mode.'')]
                    else []);
          mode' = (if unknown then ''auto'' else mode);
          c = (if mode' = ''min'' then - 1
               else if mode' = ''max'' then 1
               else if contains mon ''acc'' \<or> startswith mon ''fmeasure'' then 1
               else - 1)
      in (\<lparr>monitor = mon,
           verbose = verb,
           filepath = os_path_join head (model_name @ ''_{epoch:d}'' @ ext),
           n_models = n,
           save_weights_only = weights_only,
           period = per,
           epochs_since_last_save = 0,
           tracker = [],
           coef = c\<rparr>, warned))"

text \<open>
  \<^verbatim>\<open>__show_tracked\<close> takes the first component of \<^verbatim>\<open>zip(*self.tracker)\<close>; on an
  empty tracker that list is empty and the index raises \<^verbatim>\<open>IndexError\<close>.
\<close>

definition show_tracked :: "callback \<Rightarrow> exn + pyfloat list" where
  "show_tracked self =
     (if tracker self = [] then Inl IndexError
      else Inr (map (\<lambda>score. float_mul score (coef self)) (map fst (tracker self))))"

definition announce :: "callback \<Rightarrow> exn + effect list" where
  "announce self =
     (if verbose self > 0
      then (case show_tracked self of Inl e \<Rightarrow> Inl e | Inr shown \<Rightarrow> Inr [Print shown])
      else Inr [])"

definition persist :: "callback \<Rightarrow> string \<Rightarrow> effect" where
  "persist self path = (if save_weights_only self then SaveWeights path else Save path)"

text \<open>
  \<^verbatim>\<open>self.filepath.format(epoch=epoch+1, **logs)\<close>: a key \<^verbatim>\<open>epoch\<close> in the logs is a
  second value for the same keyword, which Python rejects with \<^verbatim>\<open>TypeError\<close>.
\<close>

definition format_path :: "field_formatter \<Rightarrow> string \<Rightarrow> int \<Rightarrow> (string \<rightharpoonup> pyfloat) \<Rightarrow> exn + string" where
  "format_path R template epoch1 logs =
     (if logs ''epoch'' \<noteq> None then Inl TypeError
      else str_format R template ((map_option PFloat \<circ> logs)(''epoch'' \<mapsto> PInt epoch1)))"

text \<open>
  A call returns the instance as the call leaves it, the effects it performed, and the
  exception it raised, if any. An exception leaves the attributes as they were assigned
  before it.
\<close>

record outcome =
  state :: callback
  effects :: "effect list"
  raised :: "exn option"

definition finish :: "callback \<Rightarrow> exn + effect list \<Rightarrow> effect list \<Rightarrow> outcome" where
  "finish self said after =
     (case said of
        Inl e \<Rightarrow> \<lparr>state = self, effects = [], raised = Some e\<rparr>
      | Inr printed \<Rightarrow> \<lparr>state = self, effects = printed @ after, raised = None\<rparr>)"

text \<open>\<^verbatim>\<open>logs = logs or {}\<close>: no logs, or empty logs, are the empty mapping.\<close>

definition logs_or_empty :: "(string \<rightharpoonup> pyfloat) option \<Rightarrow> (string \<rightharpoonup> pyfloat)" where
  "logs_or_empty logs0 = (case logs0 of None \<Rightarrow> Map.empty | Some l \<Rightarrow> l)"

definition on_epoch_end :: "field_formatter \<Rightarrow> callback \<Rightarrow> int \<Rightarrow> (string \<rightharpoonup> pyfloat) option \<Rightarrow> outcome" where
  "on_epoch_end R self0 epoch logs0 =
     (let logs = logs_or_empty logs0;
          self1 = self0\<lparr>epochs_since_last_save := epochs_since_last_save self0 + 1\<rparr>
      in if epochs_since_last_save self1 \<ge> period self1 then
           (let self2 = self1\<lparr>epochs_since_last_save := 0\<rparr>
            in case format_path R (filepath self2) (epoch + 1) logs of
                 Inl e \<Rightarrow> \<lparr>state = self2, effects = [], raised = Some e\<rparr>
               | Inr path \<Rightarrow>
                   (case logs (monitor self2) of
                      None \<Rightarrow>
                        \<lparr>state = self2,
                         effects = [Warn (''Can save best model only with '' @ monitor self2
                                          @ '' available, skipping.'')],
                         raised = None\<rparr>
                    | Some current \<Rightarrow>
                        if int (length (tracker self2)) \<ge> n_models self2 then
                          (let (discard, heap) =
                                 heappushpop entry_lt (tracker self2)
                                   (float_mul current (coef self2), epoch + 1, path);
                               self3 = self2\<lparr>tracker := heap\<rparr>
                           in if \<not> entry_eq discard (float_mul current (coef self2), epoch + 1, path)
                              then finish self3 (announce self3)
                                     [Remove (snd (snd discard)), persist self3 path]
                              else finish self3 (announce self3) [])
                        else
                          (let self3 = self2\<lparr>tracker :=
                                 heappush entry_lt (tracker self2)
                                   (float_mul current (coef self2), epoch + 1, path)\<rparr>
                           in finish self3 (announce self3) [persist self3 path])))
         else \<lparr>state = self1, effects = [], raised = None\<rparr>)"

subsection \<open>Sequences of calls\<close>

text \<open>
  A training run is a list of notifications (epoch, logs). \<open>run\<close> feeds them to the
  callback one after the other and collects the effects; it goes on after a call that
  raised, so that what is proved of \<open>run\<close> holds whether or not the caller stops at the
  exception.
\<close>

fun run :: "field_formatter \<Rightarrow> callback \<Rightarrow> (int \<times> (string \<rightharpoonup> pyfloat) option) list \<Rightarrow> callback \<times> effect list" where
  "run R self [] = (self, [])"
| "run R self ((epoch, logs) # calls) =
     (let out = on_epoch_end R self epoch logs;
          (self', later) = run R (state out) calls
      in (self', effects out @ later))"

section \<open>Notions used to state the properties\<close>

subsection \<open>Binary heaps in a list\<close>

text \<open>
  A list is a heap when no element is smaller than the one at its parent position. While a
  sift runs, one position is a hole whose content does not count: \<open>heap_but h p\<close> says
  that the order holds between all positions other than \<open>p\<close>, and between the parent of
  \<open>p\<close> and the children of \<open>p\<close>.
\<close>

abbreviation parent :: "nat \<Rightarrow> nat" where
  "parent i \<equiv> (i - 1) div 2"

definition is_heap :: "'a::linorder list \<Rightarrow> bool" where
  "is_heap h = (\<forall>i. 0 < i \<and> i < length h \<longrightarrow> h ! parent i \<le> h ! i)"

definition heap_but :: "'a::linorder list \<Rightarrow> nat \<Rightarrow> bool" where
  "heap_but h p = (\<forall>i. 0 < i \<and> i < length h \<longrightarrow>
       (i \<noteq> p \<and> parent i \<noteq> p \<longrightarrow> h ! parent i \<le> h ! i) \<and>
       (parent i = p \<and> 0 < p \<longrightarrow> h ! parent p \<le> h ! i))"

definition below_children :: "'a::linorder list \<Rightarrow> nat \<Rightarrow> 'a \<Rightarrow> bool" where
  "below_children h p x = (\<forall>i. 0 < i \<and> i < length h \<and> parent i = p \<longrightarrow> x \<le> h ! i)"

subsection \<open>Reading a list of effects\<close>

text \<open>
  The file operations among the effects, the paths handed to \<^verbatim>\<open>model.save\<close> or
  \<^verbatim>\<open>model.save_weights\<close>, and the paths handed to \<^verbatim>\<open>os.remove\<close>, each in the
  order of the calls.
\<close>

fun is_file_op :: "effect \<Rightarrow> bool" where
  "is_file_op (Remove p) = True"
| "is_file_op (Save p) = True"
| "is_file_op (SaveWeights p) = True"
| "is_file_op e = False"

definition file_ops :: "effect list \<Rightarrow> effect list" where
  "file_ops es = filter is_file_op es"

fun saved :: "effect list \<Rightarrow> string list" where
  "saved [] = []"
| "saved (Save p # es) = p # saved es"
| "saved (SaveWeights p # es) = p # saved es"
| "saved (e # es) = saved es"

fun removed :: "effect list \<Rightarrow> string list" where
  "removed [] = []"
| "removed (Remove p # es) = p # removed es"
| "removed (e # es) = removed es"

text \<open>
  A call is eligible when the incremented counter reaches the period; \<open>candidate\<close> is the
  triple the code builds for an eligible call with the monitored value \<open>current\<close> and the
  resolved path; \<open>raw_scores\<close> turns the scores of the tracker back into monitored
  values, as \<^verbatim>\<open>__show_tracked\<close> does (the coefficient is its own inverse);
  \<open>printed\<close> is what a call prints when the tracker is not empty.
\<close>

definition eligible :: "callback \<Rightarrow> bool" where
  "eligible self = (epochs_since_last_save self + 1 \<ge> period self)"

definition candidate :: "callback \<Rightarrow> int \<Rightarrow> pyfloat \<Rightarrow> string \<Rightarrow> entry" where
  "candidate self epoch current path = (float_mul current (coef self), epoch + 1, path)"

definition raw_scores :: "callback \<Rightarrow> pyfloat list" where
  "raw_scores self = map (\<lambda>entry. float_mul (fst entry) (coef self)) (tracker self)"

definition printed :: "callback \<Rightarrow> effect list" where
  "printed self =
     (if verbose self > 0
      then [Print (map (\<lambda>score. float_mul score (coef self)) (map fst (tracker self)))]
      else [])"

subsection \<open>The paths of a run and the files on disk\<close>

text \<open>
  \<open>resolved\<close> lists the paths that the calls of a run resolve: one for each evaluated call
  whose template formats without error. \<open>fs_ok\<close> replays a list of effects against the
  list of files that are live (saved and not removed since): a save may not take the number
  of live files above the capacity, and a removal must name a live file.
\<close>

fun resolved :: "field_formatter \<Rightarrow> callback \<Rightarrow> (int \<times> (string \<rightharpoonup> pyfloat) option) list \<Rightarrow> string list" where
  "resolved R self [] = []"
| "resolved R self ((epoch, logs) # calls) =
     (if eligible self
      then (case format_path R (filepath self) (epoch + 1) (logs_or_empty logs) of
              Inl e \<Rightarrow> []
            | Inr path \<Rightarrow> [path])
      else [])
     @ resolved R (state (on_epoch_end R self epoch logs)) calls"

fun fs_ok :: "nat \<Rightarrow> string list \<Rightarrow> effect list \<Rightarrow> bool" where
  "fs_ok N live [] = True"
| "fs_ok N live (Save p # es) = (length (p # live) \<le> N \<and> fs_ok N (p # live) es)"
| "fs_ok N live (SaveWeights p # es) = (length (p # live) \<le> N \<and> fs_ok N (p # live) es)"
| "fs_ok N live (Remove p # es) = (p \<in> set live \<and> fs_ok N (remove1 p live) es)"
| "fs_ok N live (e # es) = fs_ok N live es"

abbreviation path_of :: "entry \<Rightarrow> string" where
  "path_of x \<equiv> snd (snd x)"

text \<open>
  The three properties of a list of effects that the replay yields, relative to the paths
  saved (\<open>S\<close>) and removed (\<open>G\<close>) before it: no path is removed twice, every removal names a
  path saved before it, and at every point the paths saved and not removed are at most \<open>N\<close>.
\<close>

definition plain_ok :: "nat \<Rightarrow> string list \<Rightarrow> string list \<Rightarrow> effect list \<Rightarrow> bool" where
  "plain_ok N S G es =
     (distinct (G @ removed es)
      \<and> (\<forall>i<length es. \<forall>p. es ! i = Remove p \<longrightarrow> p \<in> set (S @ saved (take i es)))
      \<and> (\<forall>k\<le>length es. card (set (S @ saved (take k es)) - set (G @ removed (take k es))) \<le> N))"

subsection \<open>Runs without NaN\<close>

text \<open>
  A list of calls is \<open>nan_free\<close> for a monitor when no call reports NaN for it; an instance
  has a \<open>unit_coef\<close> when its coefficient is \<open>1\<close> or \<open>-1\<close>, as the constructor leaves it.
\<close>

definition nan_free :: "string \<Rightarrow> (int \<times> (string \<rightharpoonup> pyfloat) option) list \<Rightarrow> bool" where
  "nan_free mon calls = list_all (\<lambda>(epoch, logs). logs_or_empty logs mon \<noteq> Some NaN) calls"

definition unit_coef :: "callback \<Rightarrow> bool" where
  "unit_coef self = (coef self = 1 \<or> coef self = - 1)"

subsection \<open>The fields of a template\<close>





subsection \<open>An instance of the formatting parameter\<close>

text \<open>
  The examples need a value for the parameter \<open>R\<close>. \<open>unsupported\<close> rejects every field it
  is asked about, so an example that goes through does so on the modelled part of
  \<^verbatim>\<open>str.format\<close> alone.
\<close>

definition unsupported :: field_formatter where
  "unsupported name cv spec kw = Inl ValueError"

section \<open>The heap operations keep the heap order and the elements\<close>

lemma heap_butD1:
  "heap_but h p \<Longrightarrow> 0 < i \<Longrightarrow> i < length h \<Longrightarrow> i \<noteq> p \<Longrightarrow> parent i \<noteq> p \<Longrightarrow> h ! parent i \<le> h ! i"
  by (simp add: heap_but_def)

lemma heap_butD2:
  "heap_but h p \<Longrightarrow> 0 < i \<Longrightarrow> i < length h \<Longrightarrow> parent i = p \<Longrightarrow> 0 < p \<Longrightarrow> h ! parent p \<le> h ! i"
  by (simp add: heap_but_def)

lemma below_childrenD:
  "below_children h p x \<Longrightarrow> 0 < i \<Longrightarrow> i < length h \<Longrightarrow> parent i = p \<Longrightarrow> x \<le> h ! i"
  by (simp add: below_children_def)

lemma parent_less: "0 < i \<Longrightarrow> parent i < i"
  by arith

lemma heap_but_update:
  assumes "heap_but h p"
  shows "heap_but (h[p := y]) p"
  unfolding heap_but_def
proof (intro allI impI conjI)
  fix i assume i: "0 < i \<and> i < length (h[p := y])" and c: "i \<noteq> p \<and> parent i \<noteq> p"
  with heap_butD1[OF assms, of i] show "h[p := y] ! parent i \<le> h[p := y] ! i" by simp
next
  fix i assume i: "0 < i \<and> i < length (h[p := y])" and c: "parent i = p \<and> 0 < p"
  then have "i \<noteq> p" and "parent p \<noteq> p" by arith+
  with heap_butD2[OF assms, of i] i c show "h[p := y] ! parent p \<le> h[p := y] ! i" by simp
qed

lemma heap_fill:
  assumes "heap_but h p" "below_children h p x" "0 < p \<longrightarrow> h ! parent p \<le> x" "p < length h"
  shows "is_heap (h[p := x])"
  unfolding is_heap_def
proof (intro allI impI)
  fix i assume i: "0 < i \<and> i < length (h[p := x])"
  then have i0: "0 < i" and il: "i < length h" by simp_all
  have pi: "parent i < i" using i0 by arith
  show "h[p := x] ! parent i \<le> h[p := x] ! i"
  proof (cases "i = p")
    case True
    with assms(3,4) i0 pi show ?thesis by simp
  next
    case ip: False
    show ?thesis
    proof (cases "parent i = p")
      case True
      with below_childrenD[OF assms(2) i0 il] ip assms(4) show ?thesis by simp
    next
      case False
      with heap_butD1[OF assms(1) i0 il ip] ip show ?thesis by simp
    qed
  qed
qed

lemma siftdown_step:
  assumes hb: "heap_but h p" and bc: "below_children h p x"
    and p0: "0 < p" and pl: "p < length h" and lt: "x < h ! parent p"
  shows "heap_but (h[p := h ! parent p]) (parent p)"
    and "below_children (h[p := h ! parent p]) (parent p) x"
proof -
  let ?q = "parent p"
  let ?h = "h[p := h ! ?q]"
  have qp: "?q < p" using p0 by arith
  show "heap_but ?h ?q"
    unfolding heap_but_def
  proof (intro allI impI conjI)
    fix i assume i: "0 < i \<and> i < length ?h" and c: "i \<noteq> ?q \<and> parent i \<noteq> ?q"
    then have i0: "0 < i" and il: "i < length h" and ip: "i \<noteq> p" by auto
    show "?h ! parent i \<le> ?h ! i"
    proof (cases "parent i = p")
      case True
      with heap_butD2[OF hb i0 il True p0] ip pl show ?thesis by simp
    next
      case False
      with heap_butD1[OF hb i0 il ip] ip show ?thesis by simp
    qed
  next
    fix i assume i: "0 < i \<and> i < length ?h" and c: "parent i = ?q \<and> 0 < ?q"
    then have i0: "0 < i" and il: "i < length h" and q0: "0 < ?q" and piq: "parent i = ?q" by auto
    have qq: "parent ?q < ?q" using q0 by arith
    have a: "h ! parent ?q \<le> h ! ?q"
      using heap_butD1[OF hb q0, of] qp pl qq by simp
    have b: "?h ! parent ?q = h ! parent ?q" using qq qp by simp
    show "?h ! parent ?q \<le> ?h ! i"
    proof (cases "i = p")
      case True
      with a b pl show ?thesis by simp
    next
      case False
      have "h ! ?q \<le> h ! i" using heap_butD1[OF hb i0 il False] piq qp by simp
      with a b False show ?thesis by simp
    qed
  qed
  show "below_children ?h ?q x"
    unfolding below_children_def
  proof (intro allI impI)
    fix i assume i: "0 < i \<and> i < length ?h \<and> parent i = ?q"
    then have i0: "0 < i" and il: "i < length h" and piq: "parent i = ?q" by auto
    show "x \<le> ?h ! i"
    proof (cases "i = p")
      case True
      with lt pl show ?thesis by simp
    next
      case False
      have "h ! ?q \<le> h ! i" using heap_butD1[OF hb i0 il False] piq qp by simp
      with lt False show ?thesis by simp
    qed
  qed
qed

lemma siftdown_loop_length:
  "siftdown_loop lt h s x p = (h', p') \<Longrightarrow> length h' = length h \<and> p' \<le> p"
proof (induction lt h s x p arbitrary: h' p' rule: siftdown_loop.induct)
  case (1 lt heap startpos newitem pos)
  show ?case
  proof (cases "pos > startpos \<and> lt newitem (heap ! parent pos)")
    case True
    with "1.prems" have "siftdown_loop lt (heap[pos := heap ! parent pos]) startpos newitem (parent pos) = (h', p')"
      by (subst (asm) siftdown_loop.simps) (simp add: Let_def)
    with "1.IH"[OF _ refl refl, of h' p'] True show ?thesis by auto
  next
    case False
    with "1.prems" show ?thesis
      by (subst (asm) siftdown_loop.simps) (auto simp: Let_def split: if_splits)
  qed
qed

lemma siftdown_loop_inv:
  assumes "siftdown_loop (<) h 0 x p = (h', p')"
    and "heap_but h p" and "p < length h" and "below_children h p x"
  shows "heap_but h' p' \<and> below_children h' p' x \<and> (0 < p' \<longrightarrow> h' ! parent p' \<le> x)"
  using assms
proof (induction "(<) :: 'a \<Rightarrow> 'a \<Rightarrow> bool" h "0::nat" x p arbitrary: h' p' rule: siftdown_loop.induct)
  case (1 heap newitem pos)
  show ?case
  proof (cases "pos > 0 \<and> newitem < heap ! parent pos")
    case True
    let ?h = "heap[pos := heap ! parent pos]"
    from True "1.prems"(1) have run: "siftdown_loop (<) ?h 0 newitem (parent pos) = (h', p')"
      by (subst (asm) siftdown_loop.simps) (simp add: Let_def)
    have pp: "parent pos < length ?h" using True "1.prems"(3) by simp
    from True have p0: "0 < pos" and less: "newitem < heap ! parent pos" by simp_all
    note st = siftdown_step[OF "1.prems"(2) "1.prems"(4) p0 "1.prems"(3) less]
    from "1.hyps"[OF p0 refl refl less run st(1) pp st(2)] show ?thesis .
  next
    case False
    with "1.prems" show ?thesis
      by (subst (asm) siftdown_loop.simps) (auto simp: Let_def split: if_splits)
  qed
qed

lemma siftdown_loop_mset:
  "siftdown_loop lt h s x p = (h', p') \<Longrightarrow> p < length h \<Longrightarrow> mset (h'[p' := x]) = mset (h[p := x])"
proof (induction lt h s x p arbitrary: h' p' rule: siftdown_loop.induct)
  case (1 lt heap startpos newitem pos)
  show ?case
  proof (cases "pos > startpos \<and> lt newitem (heap ! parent pos)")
    case True
    let ?q = "parent pos"
    let ?h = "heap[pos := heap ! ?q]"
    from True "1.prems"(1) have run: "siftdown_loop lt ?h startpos newitem ?q = (h', p')"
      by (subst (asm) siftdown_loop.simps) (simp add: Let_def)
    from True have qp: "?q < pos" by arith
    then have ql: "?q < length ?h" using "1.prems"(2) by simp
    from True have sp: "startpos < pos" and less: "lt newitem (heap ! ?q)" by simp_all
    have "mset (h'[p' := newitem]) = mset (?h[?q := newitem])"
      using "1.IH"[OF sp refl refl less run ql] .
    also have "?h[?q := newitem] = (heap[pos := newitem])[pos := (heap[pos := newitem]) ! ?q, ?q := (heap[pos := newitem]) ! pos]"
      using qp "1.prems"(2) by simp
    also have "mset \<dots> = mset (heap[pos := newitem])"
      using qp "1.prems"(2) by (intro mset_swap) simp_all
    finally show ?thesis .
  next
    case False
    with "1.prems" show ?thesis
      by (subst (asm) siftdown_loop.simps) (auto simp: Let_def split: if_splits)
  qed
qed


lemma children: "0 < i \<Longrightarrow> parent i = p \<longleftrightarrow> i = 2 * p + 1 \<or> i = 2 * p + 2"
  by arith

lemma siftup_step:
  assumes hb: "heap_but h p" and cl: "c < length h" and pc: "parent c = p" and c0: "0 < c"
    and small: "\<And>i. 0 < i \<Longrightarrow> i < length h \<Longrightarrow> parent i = p \<Longrightarrow> h ! c \<le> h ! i"
  shows "heap_but (h[p := h ! c]) c"
  unfolding heap_but_def
proof (intro allI impI conjI)
  let ?h = "h[p := h ! c]"
  have pc': "p < c" using pc c0 by arith
  fix i assume i: "0 < i \<and> i < length ?h" and c: "i \<noteq> c \<and> parent i \<noteq> c"
  then have i0: "0 < i" and il: "i < length h" by simp_all
  have pi: "parent i < i" using i0 by arith
  show "?h ! parent i \<le> ?h ! i"
  proof (cases "i = p")
    case True
    then have "h ! parent p \<le> h ! c" using heap_butD2[OF hb c0 cl pc] i0 by simp
    with True pi il show ?thesis by simp
  next
    case ip: False
    show ?thesis
    proof (cases "parent i = p")
      case True
      with small[OF i0 il True] ip il pi show ?thesis by simp
    next
      case False
      with heap_butD1[OF hb i0 il ip] ip show ?thesis by simp
    qed
  qed
next
  let ?h = "h[p := h ! c]"
  have pc': "p < c" using pc c0 by arith
  fix i assume i: "0 < i \<and> i < length ?h" and c: "parent i = c \<and> 0 < c"
  then have i0: "0 < i" and il: "i < length h" and pic: "parent i = c" by simp_all
  have ci: "c < i" using pic i0 by arith
  have "h ! c \<le> h ! i" using heap_butD1[OF hb i0 il] pic pc' ci by simp
  with pc pc' ci cl show "?h ! parent c \<le> ?h ! i" by simp
qed

lemma siftup_loop_unfold:
  assumes "2 * pos + 1 < endpos"
    and "c = (if 2 * pos + 1 + 1 < endpos \<and> \<not> lt (heap ! (2 * pos + 1)) (heap ! (2 * pos + 1 + 1))
              then 2 * pos + 1 + 1 else 2 * pos + 1)"
  shows "siftup_loop lt heap endpos pos = siftup_loop lt (heap[pos := heap ! c]) endpos c"
  using assms by (subst siftup_loop.simps) (simp add: Let_def)

lemma siftup_loop_stop:
  assumes "\<not> 2 * pos + 1 < endpos"
  shows "siftup_loop lt heap endpos pos = (heap, pos)"
  using assms by (subst siftup_loop.simps) (simp add: Let_def)

lemma siftup_loop_inv:
  assumes "siftup_loop (<) h e p = (h', p')" and "e = length h" and "heap_but h p" and "p < length h"
  shows "heap_but h' p' \<and> length h' = length h \<and> p' < length h \<and> length h \<le> 2 * p' + 1"
  using assms
proof (induction "(<) :: 'a \<Rightarrow> 'a \<Rightarrow> bool" h e p arbitrary: h' p' rule: siftup_loop.induct)
  case (1 heap endpos pos)
  show ?case
  proof (cases "2 * pos + 1 < endpos")
    case True
    define c where "c = (if 2 * pos + 1 + 1 < endpos \<and> \<not> heap ! (2 * pos + 1) < heap ! (2 * pos + 1 + 1)
              then 2 * pos + 1 + 1 else 2 * pos + 1)"
    have run: "siftup_loop (<) (heap[pos := heap ! c]) endpos c = (h', p')"
      using siftup_loop_unfold[where lt="(<)" and heap=heap, OF True c_def] "1.prems"(1) by simp
    have cc: "c = 2 * pos + 1 \<or> c = 2 * pos + 2" by (simp add: c_def)
    have cl: "c < length heap" using True "1.prems"(2) by (simp add: c_def)
    have pc: "parent c = pos" using cc by arith
    have c0: "0 < c" using cc by arith
    have small: "heap ! c \<le> heap ! i" if "0 < i" "i < length heap" "parent i = pos" for i
    proof -
      from that have "i = 2 * pos + 1 \<or> i = 2 * pos + 1 + 1" by arith
      then show ?thesis
      proof
        assume "i = 2 * pos + 1"
        then show ?thesis by (simp add: c_def not_less)
      next
        assume "i = 2 * pos + 1 + 1"
        with that(2) "1.prems"(2) show ?thesis by (simp add: c_def less_imp_le)
      qed
    qed
    have hb: "heap_but (heap[pos := heap ! c]) c"
      using siftup_step[OF "1.prems"(3) cl pc c0 small] by simp
    have e: "endpos = length (heap[pos := heap ! c])" using "1.prems"(2) by simp
    have cl': "c < length (heap[pos := heap ! c])" using cl by simp
    from "1.hyps"[OF refl True refl c_def run e hb cl'] show ?thesis by simp
  next
    case False
    with "1.prems" show ?thesis by (simp add: siftup_loop_stop)
  qed
qed

lemma siftup_loop_mset:
  assumes "siftup_loop lt h e p = (h', p')" and "e \<le> length h" and "p < length h"
  shows "mset (h'[p' := x]) = mset (h[p := x])"
  using assms
proof (induction lt h e p arbitrary: h' p' rule: siftup_loop.induct)
  case (1 lt heap endpos pos)
  show ?case
  proof (cases "2 * pos + 1 < endpos")
    case True
    define c where "c = (if 2 * pos + 1 + 1 < endpos \<and> \<not> lt (heap ! (2 * pos + 1)) (heap ! (2 * pos + 1 + 1))
              then 2 * pos + 1 + 1 else 2 * pos + 1)"
    let ?h = "heap[pos := heap ! c]"
    let ?g = "heap[pos := x]"
    have run: "siftup_loop lt ?h endpos c = (h', p')"
      using siftup_loop_unfold[where lt=lt and heap=heap, OF True c_def] "1.prems"(1) by simp
    have cl: "c < length heap" using True "1.prems"(2) by (simp add: c_def)
    have pc: "pos < c" by (simp add: c_def)
    have e: "endpos \<le> length ?h" using "1.prems"(2) by simp
    have cl': "c < length ?h" using cl by simp
    have "mset (h'[p' := x]) = mset (?h[c := x])"
      using "1.IH"[OF refl True refl c_def run e cl'] .
    also have "?h[c := x] = ?g[pos := ?g ! c, c := ?g ! pos]"
      using pc cl "1.prems"(3) by simp
    also have "mset \<dots> = mset ?g"
      using cl "1.prems"(3) by (intro mset_swap) simp_all
    finally show ?thesis .
  next
    case False
    with "1.prems" show ?thesis by (simp add: siftup_loop_stop)
  qed
qed

lemma siftup_loop_length:
  assumes "siftup_loop lt h e p = (h', p')" and "e \<le> length h" and "p < length h"
  shows "length h' = length h \<and> p' < length h"
  using assms
proof (induction lt h e p arbitrary: h' p' rule: siftup_loop.induct)
  case (1 lt heap endpos pos)
  show ?case
  proof (cases "2 * pos + 1 < endpos")
    case True
    define c where "c = (if 2 * pos + 1 + 1 < endpos \<and> \<not> lt (heap ! (2 * pos + 1)) (heap ! (2 * pos + 1 + 1))
              then 2 * pos + 1 + 1 else 2 * pos + 1)"
    let ?h = "heap[pos := heap ! c]"
    have run: "siftup_loop lt ?h endpos c = (h', p')"
      using siftup_loop_unfold[where lt=lt and heap=heap, OF True c_def] "1.prems"(1) by simp
    have e: "endpos \<le> length ?h" using "1.prems"(2) by simp
    have cl': "c < length ?h" using True "1.prems"(2) by (simp add: c_def)
    from "1.IH"[OF refl True refl c_def run e cl'] show ?thesis by simp
  next
    case False
    with "1.prems" show ?thesis by (simp add: siftup_loop_stop)
  qed
qed

lemma siftdown_heap:
  assumes "heap_but h p" and "p < length h" and "below_children h p (h ! p)"
  shows "is_heap (siftdown (<) h 0 p)"
proof -
  obtain h' p' where run: "siftdown_loop (<) h 0 (h ! p) p = (h', p')" by fastforce
  from siftdown_loop_inv[OF run assms] siftdown_loop_length[OF run] assms(2)
  have "is_heap (h'[p' := h ! p])" by (intro heap_fill) simp_all
  with run show ?thesis by (simp add: siftdown_def)
qed

lemma siftdown_mset:
  assumes "p < length h"
  shows "mset (siftdown lt h s p) = mset h"
proof -
  obtain h' p' where run: "siftdown_loop lt h s (h ! p) p = (h', p')" by fastforce
  from siftdown_loop_mset[OF run assms] run show ?thesis by (simp add: siftdown_def)
qed

lemma is_heap_heap_but_last: "is_heap h \<Longrightarrow> heap_but (h @ [x]) (length h)"
  unfolding is_heap_def heap_but_def
proof (intro allI impI conjI)
  fix i
  assume h: "\<forall>i. 0 < i \<and> i < length h \<longrightarrow> h ! parent i \<le> h ! i"
    and i: "0 < i \<and> i < length (h @ [x])" and c: "i \<noteq> length h \<and> parent i \<noteq> length h"
  then have "i < length h" "parent i < length h" by simp_all arith
  with h i show "(h @ [x]) ! parent i \<le> (h @ [x]) ! i" by (simp add: nth_append)
next
  fix i
  assume i: "0 < i \<and> i < length (h @ [x])" and c: "parent i = length h \<and> 0 < length h"
  then have False by simp arith
  then show "(h @ [x]) ! parent (length h) \<le> (h @ [x]) ! i" ..
qed

lemma heappush_heap: "is_heap h \<Longrightarrow> is_heap (heappush (<) h x)"
proof -
  assume h: "is_heap h"
  have bc: "below_children (h @ [x]) (length h) ((h @ [x]) ! length h)"
    unfolding below_children_def
  proof (intro allI impI)
    fix i assume "0 < i \<and> i < length (h @ [x]) \<and> parent i = length h"
    then have False by simp arith
    then show "(h @ [x]) ! length h \<le> (h @ [x]) ! i" ..
  qed
  from siftdown_heap[OF is_heap_heap_but_last[OF h] _ bc] show ?thesis
    by (simp add: heappush_def)
qed

lemma heappush_mset: "mset (heappush lt h x) = add_mset x (mset h)"
  using siftdown_mset[where p="length h" and h="h @ [x]" and s=0 and lt=lt] by (simp add: heappush_def)

lemma heappush_length: "length (heappush lt h x) = Suc (length h)"
  using heappush_mset[of lt h x] by (metis size_mset size_add_mset)

lemma siftup_heap:
  assumes "heap_but h 0" and "h \<noteq> []"
  shows "is_heap (siftup (<) h 0)"
proof -
  obtain h' p' where run: "siftup_loop (<) h (length h) 0 = (h', p')" by fastforce
  from assms(2) have l: "0 < length h" by simp
  from siftup_loop_inv[OF run refl assms(1) l]
  have hb: "heap_but h' p'" and len: "length h' = length h" and p': "p' < length h"
    and leaf: "length h \<le> 2 * p' + 1" by simp_all
  let ?g = "h'[p' := h ! 0]"
  have 1: "heap_but ?g p'" using hb by (rule heap_but_update)
  have 2: "p' < length ?g" using p' len by simp
  have 3: "below_children ?g p' (?g ! p')"
    unfolding below_children_def
  proof (intro allI impI)
    fix i assume "0 < i \<and> i < length ?g \<and> parent i = p'"
    with leaf len have False by simp arith
    then show "?g ! p' \<le> ?g ! i" ..
  qed
  from siftdown_heap[OF 1 2 3] run show ?thesis by (simp add: siftup_def Let_def)
qed

lemma siftup_mset:
  assumes "h \<noteq> []"
  shows "mset (siftup lt h 0) = mset h"
proof -
  obtain h' p' where run: "siftup_loop lt h (length h) 0 = (h', p')" by fastforce
  from assms have l: "0 < length h" by simp
  from siftup_loop_mset[OF run _ l, of "h ! 0"] have m: "mset (h'[p' := h ! 0]) = mset h" by simp
  from siftup_loop_length[OF run _ l] have "p' < length (h'[p' := h ! 0])" by simp
  then have "mset (siftdown lt (h'[p' := h ! 0]) 0 p') = mset (h'[p' := h ! 0])"
    by (rule siftdown_mset)
  with run m show ?thesis by (simp add: siftup_def Let_def)
qed

lemma is_heap_root_heap_but: "is_heap h \<Longrightarrow> heap_but (h[0 := x]) 0"
  unfolding is_heap_def heap_but_def
proof (intro allI impI conjI)
  fix i
  assume h: "\<forall>i. 0 < i \<and> i < length h \<longrightarrow> h ! parent i \<le> h ! i"
    and i: "0 < i \<and> i < length (h[0 := x])" and c: "i \<noteq> 0 \<and> parent i \<noteq> 0"
  with h show "h[0 := x] ! parent i \<le> h[0 := x] ! i" by simp
qed simp

lemma is_heap_root_le:
  assumes "is_heap h" and "i < length h"
  shows "h ! 0 \<le> h ! i"
  using assms(2)
proof (induction i rule: less_induct)
  case (less i)
  show ?case
  proof (cases "i = 0")
    case True then show ?thesis by simp
  next
    case False
    then have pi: "parent i < i" by arith
    with less.prems have "h ! 0 \<le> h ! parent i" by (intro less.IH) simp_all
    also have "\<dots> \<le> h ! i" using assms(1) False less.prems by (simp add: is_heap_def)
    finally show ?thesis .
  qed
qed

lemma is_heap_root_Min:
  assumes "is_heap h" and "h \<noteq> []"
  shows "h ! 0 = Min (set h)"
proof (rule sym, rule Min_eqI)
  show "finite (set h)" by simp
  show "h ! 0 \<in> set h" using assms(2) by simp
  fix y assume "y \<in> set h"
  then obtain i where "i < length h" "h ! i = y" by (auto simp: in_set_conv_nth)
  with is_heap_root_le[OF assms(1)] show "h ! 0 \<le> y" by auto
qed

lemma heappushpop_heap: "is_heap h \<Longrightarrow> is_heap (snd (heappushpop (<) h x))"
  by (simp add: heappushpop_def siftup_heap is_heap_root_heap_but)

lemma heappushpop_length: "length (snd (heappushpop lt h x)) = length h"
proof (cases "h \<noteq> [] \<and> lt (h ! 0) x")
  case True
  then have "mset (siftup lt (h[0 := x]) 0) = mset (h[0 := x])" by (intro siftup_mset) simp
  then have "length (siftup lt (h[0 := x]) 0) = length (h[0 := x])" by (rule mset_eq_length)
  with True show ?thesis by (simp add: heappushpop_def)
next
  case False
  then show ?thesis by (auto simp: heappushpop_def)
qed

lemma heappushpop_swap:
  assumes "h \<noteq> []" and "lt (h ! 0) x"
  shows "fst (heappushpop lt h x) = h ! 0"
    and "mset (snd (heappushpop lt h x)) = add_mset x (mset h - {#h ! 0#})"
proof -
  show "fst (heappushpop lt h x) = h ! 0" using assms by (simp add: heappushpop_def)
  have "mset (snd (heappushpop lt h x)) = mset (h[0 := x])"
    using assms by (simp add: heappushpop_def siftup_mset)
  also have "\<dots> = add_mset x (mset h - {#h ! 0#})"
    using assms(1) by (simp add: mset_update)
  finally show "mset (snd (heappushpop lt h x)) = add_mset x (mset h - {#h ! 0#})" .
qed

lemma heappushpop_keep:
  assumes "h = [] \<or> \<not> lt (h ! 0) x"
  shows "heappushpop lt h x = (x, h)"
  using assms by (auto simp: heappushpop_def)

section \<open>What a call does, branch by branch\<close>

lemma float_eq_refl: "float_eq x x \<longleftrightarrow> x \<noteq> NaN"
  by (cases x) simp_all

lemma float_eq_iff: "float_eq x y \<longleftrightarrow> x = y \<and> x \<noteq> NaN"
  by (cases x; cases y) simp_all

lemma float_lt_NaN [simp]: "\<not> float_lt x NaN"
  by (cases x) simp_all

lemma entry_eq_refl: "entry_eq c c \<longleftrightarrow> fst c \<noteq> NaN"
  by (simp add: entry_eq_def float_eq_refl)

lemma entry_eq_iff: "entry_eq a b \<longleftrightarrow> a = b \<and> fst a \<noteq> NaN"
  by (auto simp: entry_eq_def float_eq_iff prod_eq_iff)

lemma entry_lt_NaN: "fst b = NaN \<Longrightarrow> \<not> entry_lt a b"
  by (simp add: entry_lt_def float_eq_iff)

lemma entry_lt_not_eq: "entry_lt a b \<Longrightarrow> \<not> entry_eq a b"
  by (auto simp: entry_lt_def entry_eq_def split: if_splits)

lemma announce_nonempty: "tracker self \<noteq> [] \<Longrightarrow> announce self = Inr (printed self)"
  by (simp add: announce_def show_tracked_def printed_def)

lemma file_ops_printed [simp]: "file_ops (printed self @ es) = file_ops es"
  by (simp add: printed_def file_ops_def)

lemma saved_printed [simp]: "saved (printed self @ es) = saved es"
  by (simp add: printed_def)

lemma removed_printed [simp]: "removed (printed self @ es) = removed es"
  by (simp add: printed_def)

lemma printed_cong:
  "verbose a = verbose b \<Longrightarrow> coef a = coef b \<Longrightarrow> tracker a = tracker b \<Longrightarrow> printed a = printed b"
  by (simp add: printed_def)

lemma on_epoch_end_skip:
  assumes "\<not> eligible self"
  shows "on_epoch_end R self epoch logs0 =
           \<lparr>state = self\<lparr>epochs_since_last_save := epochs_since_last_save self + 1\<rparr>,
            effects = [], raised = None\<rparr>"
  using assms by (simp add: on_epoch_end_def eligible_def Let_def)

lemma on_epoch_end_format_error:
  assumes "eligible self"
    and "format_path R (filepath self) (epoch + 1) (logs_or_empty logs0) = Inl e"
  shows "on_epoch_end R self epoch logs0 =
           \<lparr>state = self\<lparr>epochs_since_last_save := 0\<rparr>, effects = [], raised = Some e\<rparr>"
  using assms by (simp add: on_epoch_end_def eligible_def Let_def)

lemma on_epoch_end_missing:
  assumes "eligible self"
    and "format_path R (filepath self) (epoch + 1) (logs_or_empty logs0) = Inr path"
    and "logs_or_empty logs0 (monitor self) = None"
  shows "on_epoch_end R self epoch logs0 =
           \<lparr>state = self\<lparr>epochs_since_last_save := 0\<rparr>,
            effects = [Warn (''Can save best model only with '' @ monitor self @ '' available, skipping.'')],
            raised = None\<rparr>"
  using assms by (simp add: on_epoch_end_def eligible_def Let_def)

lemma on_epoch_end_push:
  assumes "eligible self"
    and "format_path R (filepath self) (epoch + 1) (logs_or_empty logs0) = Inr path"
    and "logs_or_empty logs0 (monitor self) = Some current"
    and "int (length (tracker self)) < n_models self"
  shows "on_epoch_end R self epoch logs0 =
           (let self' = self\<lparr>epochs_since_last_save := 0,
                              tracker := heappush entry_lt (tracker self) (candidate self epoch current path)\<rparr>
            in \<lparr>state = self', effects = printed self' @ [persist self path], raised = None\<rparr>)"
proof -
  let ?self' = "self\<lparr>epochs_since_last_save := 0,
                     tracker := heappush entry_lt (tracker self) (candidate self epoch current path)\<rparr>"
  have "tracker ?self' \<noteq> []"
    using heappush_length[of entry_lt "tracker self" "candidate self epoch current path"] by auto
  then have "announce ?self' = Inr (printed ?self')" by (rule announce_nonempty)
  with assms show ?thesis
    by (simp add: on_epoch_end_def eligible_def Let_def candidate_def finish_def persist_def)
qed

lemma on_epoch_end_replace:
  assumes "eligible self"
    and "format_path R (filepath self) (epoch + 1) (logs_or_empty logs0) = Inr path"
    and "logs_or_empty logs0 (monitor self) = Some current"
    and "int (length (tracker self)) \<ge> n_models self"
    and "tracker self \<noteq> []" and "entry_lt (tracker self ! 0) (candidate self epoch current path)"
  shows "on_epoch_end R self epoch logs0 =
           (let self' = self\<lparr>epochs_since_last_save := 0,
                              tracker := snd (heappushpop entry_lt (tracker self)
                                                (candidate self epoch current path))\<rparr>
            in \<lparr>state = self',
                effects = printed self' @ [Remove (snd (snd (tracker self ! 0))), persist self path],
                raised = None\<rparr>)"
proof -
  let ?c = "candidate self epoch current path"
  let ?self' = "self\<lparr>epochs_since_last_save := 0, tracker := snd (heappushpop entry_lt (tracker self) ?c)\<rparr>"
  have "length (tracker ?self') = length (tracker self)" by (simp add: heappushpop_length)
  with assms(5) have "tracker ?self' \<noteq> []" by auto
  then have a: "announce ?self' = Inr (printed ?self')" by (rule announce_nonempty)
  have hp: "heappushpop entry_lt (tracker self) ?c =
      (tracker self ! 0, snd (heappushpop entry_lt (tracker self) ?c))"
    using assms(5,6) by (simp add: heappushpop_def)
  have ne: "\<not> entry_eq (tracker self ! 0) ?c" using assms(6) by (rule entry_lt_not_eq)
  show ?thesis
    unfolding on_epoch_end_def Let_def
    using assms(1-4) a ne
    apply (simp add: eligible_def candidate_def[symmetric])
    apply (subst hp)
    apply (simp add: finish_def persist_def)
    done
qed

lemma on_epoch_end_discard:
  assumes "eligible self"
    and "format_path R (filepath self) (epoch + 1) (logs_or_empty logs0) = Inr path"
    and "logs_or_empty logs0 (monitor self) = Some current"
    and "int (length (tracker self)) \<ge> n_models self"
    and "tracker self = [] \<or> \<not> entry_lt (tracker self ! 0) (candidate self epoch current path)"
    and "float_mul current (coef self) \<noteq> NaN"
  shows "on_epoch_end R self epoch logs0 =
           finish (self\<lparr>epochs_since_last_save := 0\<rparr>) (announce (self\<lparr>epochs_since_last_save := 0\<rparr>)) []"
proof -
  let ?c = "candidate self epoch current path"
  have hp: "heappushpop entry_lt (tracker self) ?c = (?c, tracker self)"
    using assms(5) by (rule heappushpop_keep)
  have eq: "entry_eq ?c ?c" using assms(6) by (simp add: entry_eq_refl candidate_def)
  show ?thesis
    unfolding on_epoch_end_def Let_def
    using assms(1-4) eq
    apply (simp add: eligible_def candidate_def[symmetric])
    apply (simp add: hp)
    done
qed

text \<open>
  A candidate whose score is NaN is never below the first entry, so \<^verbatim>\<open>heappushpop\<close>
  hands it back; the tuple that line 87 rebuilds is not equal to it, and the call goes on as
  if an entry had been evicted: it removes the candidate's own path and saves to it, with the
  tracker as it was.
\<close>

lemma on_epoch_end_nan:
  assumes "eligible self"
    and "format_path R (filepath self) (epoch + 1) (logs_or_empty logs0) = Inr path"
    and "logs_or_empty logs0 (monitor self) = Some current"
    and "int (length (tracker self)) \<ge> n_models self"
    and "float_mul current (coef self) = NaN"
  shows "on_epoch_end R self epoch logs0 =
           finish (self\<lparr>epochs_since_last_save := 0\<rparr>) (announce (self\<lparr>epochs_since_last_save := 0\<rparr>))
             [Remove path, persist self path]"
proof -
  let ?c = "candidate self epoch current path"
  have nan: "fst ?c = NaN" using assms(5) by (simp add: candidate_def)
  have hp: "heappushpop entry_lt (tracker self) ?c = (?c, tracker self)"
    using entry_lt_NaN[OF nan] by (intro heappushpop_keep) simp
  have ne: "\<not> entry_eq ?c ?c" using nan by (simp add: entry_eq_refl)
  have p: "snd (snd ?c) = path" by (simp add: candidate_def)
  show ?thesis
    unfolding on_epoch_end_def Let_def
    using assms(1-4) ne p
    apply (simp add: eligible_def candidate_def[symmetric])
    apply (simp add: hp persist_def)
    done
qed

lemma on_epoch_end_cases [case_names skip format_error missing push replace discard nan]:
  obtains
    (skip) "\<not> eligible self"
  | (format_error) e where "eligible self"
      and "format_path R (filepath self) (epoch + 1) (logs_or_empty logs0) = Inl e"
  | (missing) path where "eligible self"
      and "format_path R (filepath self) (epoch + 1) (logs_or_empty logs0) = Inr path"
      and "logs_or_empty logs0 (monitor self) = None"
  | (push) path current where "eligible self"
      and "format_path R (filepath self) (epoch + 1) (logs_or_empty logs0) = Inr path"
      and "logs_or_empty logs0 (monitor self) = Some current"
      and "int (length (tracker self)) < n_models self"
  | (replace) path current where "eligible self"
      and "format_path R (filepath self) (epoch + 1) (logs_or_empty logs0) = Inr path"
      and "logs_or_empty logs0 (monitor self) = Some current"
      and "int (length (tracker self)) \<ge> n_models self"
      and "tracker self \<noteq> []" and "entry_lt (tracker self ! 0) (candidate self epoch current path)"
  | (discard) path current where "eligible self"
      and "format_path R (filepath self) (epoch + 1) (logs_or_empty logs0) = Inr path"
      and "logs_or_empty logs0 (monitor self) = Some current"
      and "int (length (tracker self)) \<ge> n_models self"
      and "tracker self = [] \<or> \<not> entry_lt (tracker self ! 0) (candidate self epoch current path)"
      and "float_mul current (coef self) \<noteq> NaN"
  | (nan) path current where "eligible self"
      and "format_path R (filepath self) (epoch + 1) (logs_or_empty logs0) = Inr path"
      and "logs_or_empty logs0 (monitor self) = Some current"
      and "int (length (tracker self)) \<ge> n_models self"
      and "float_mul current (coef self) = NaN"
proof (cases "eligible self")
  case False
  then show ?thesis by (rule skip)
next
  case el: True
  show ?thesis
  proof (cases "format_path R (filepath self) (epoch + 1) (logs_or_empty logs0)")
    case (Inl e)
    with el show ?thesis by (rule format_error)
  next
    case fp: (Inr path)
    show ?thesis
    proof (cases "logs_or_empty logs0 (monitor self)")
      case None
      with el fp show ?thesis by (rule missing)
    next
      case cur: (Some current)
      show ?thesis
      proof (cases "int (length (tracker self)) < n_models self")
        case True
        with el fp cur show ?thesis by (rule push)
      next
        case False
        then have full: "int (length (tracker self)) \<ge> n_models self" by simp
        show ?thesis
        proof (cases "float_mul current (coef self) = NaN")
          case True
          with el fp cur full show ?thesis by (rule nan)
        next
          case nn: False
          show ?thesis
          proof (cases "tracker self \<noteq> [] \<and> entry_lt (tracker self ! 0) (candidate self epoch current path)")
            case True
            with el fp cur full show ?thesis using replace by blast
          next
            case False
            with el fp cur full nn show ?thesis using discard by blast
          qed
        qed
      qed
    qed
  qed
qed

section \<open>Facts about the constructor and about runs\<close>

lemma init_fields:
  "period (fst (init fp mon vb n w mode per)) = per"
  "n_models (fst (init fp mon vb n w mode per)) = n"
  "epochs_since_last_save (fst (init fp mon vb n w mode per)) = 0"
  "tracker (fst (init fp mon vb n w mode per)) = []"
  "monitor (fst (init fp mon vb n w mode per)) = mon"
  "verbose (fst (init fp mon vb n w mode per)) = vb"
  "save_weights_only (fst (init fp mon vb n w mode per)) = w"
  by (simp_all add: init_def Let_def split: prod.splits)

lemma run_waiting:
  "epochs_since_last_save self + int (length calls) < period self \<Longrightarrow>
   run R self calls =
     (self\<lparr>epochs_since_last_save := epochs_since_last_save self + int (length calls)\<rparr>, [])"
proof (induction calls arbitrary: self)
  case Nil
  then show ?case by simp
next
  case (Cons call calls)
  obtain epoch logs0 where call: "call = (epoch, logs0)" by (cases call)
  from Cons.prems have ne: "\<not> eligible self" by (simp add: eligible_def)
  let ?s = "self\<lparr>epochs_since_last_save := epochs_since_last_save self + 1\<rparr>"
  from Cons.prems have "epochs_since_last_save ?s + int (length calls) < period ?s" by simp
  from Cons.IH[OF this] show ?case
    by (simp add: call on_epoch_end_skip[OF ne] add.assoc)
qed

lemma on_epoch_end_config:
  "monitor (state (on_epoch_end R self epoch logs0)) = monitor self"
  "verbose (state (on_epoch_end R self epoch logs0)) = verbose self"
  "filepath (state (on_epoch_end R self epoch logs0)) = filepath self"
  "n_models (state (on_epoch_end R self epoch logs0)) = n_models self"
  "save_weights_only (state (on_epoch_end R self epoch logs0)) = save_weights_only self"
  "period (state (on_epoch_end R self epoch logs0)) = period self"
  "coef (state (on_epoch_end R self epoch logs0)) = coef self"
  by (cases rule: on_epoch_end_cases[where self=self and R=R and epoch=epoch and ?logs0.0=logs0];
      simp add: on_epoch_end_skip on_epoch_end_format_error on_epoch_end_missing on_epoch_end_push
        on_epoch_end_replace on_epoch_end_discard on_epoch_end_nan Let_def finish_def split: sum.splits)+

lemma finish_state [simp]: "state (finish self said after) = self"
  by (simp add: finish_def split: sum.splits)

lemma finish_no_after: "file_ops (effects (finish self (announce self') [])) = []"
  by (auto simp: finish_def announce_def file_ops_def split: sum.splits)

lemma on_epoch_end_bounded:
  assumes "int (length (tracker self)) \<le> n_models self"
  shows "int (length (tracker (state (on_epoch_end R self epoch logs0)))) \<le> n_models self"
  using assms
  by (cases rule: on_epoch_end_cases[where self=self and R=R and epoch=epoch and ?logs0.0=logs0])
     (simp_all add: on_epoch_end_skip on_epoch_end_format_error on_epoch_end_missing on_epoch_end_push
        on_epoch_end_replace on_epoch_end_discard on_epoch_end_nan Let_def heappush_length
        heappushpop_length)

lemma run_Cons:
  "fst (run R self ((epoch, logs0) # calls)) = fst (run R (state (on_epoch_end R self epoch logs0)) calls)"
  "snd (run R self ((epoch, logs0) # calls)) =
     effects (on_epoch_end R self epoch logs0) @ snd (run R (state (on_epoch_end R self epoch logs0)) calls)"
  by (simp_all add: Let_def split: prod.splits)

lemma run_config:
  "n_models (fst (run R self calls)) = n_models self"
proof (induction calls arbitrary: self)
  case Nil
  then show ?case by simp
next
  case (Cons call calls)
  obtain epoch logs0 where call: "call = (epoch, logs0)" by (cases call)
  show ?case unfolding call run_Cons by (simp add: Cons.IH on_epoch_end_config)
qed

lemma run_bounded:
  "int (length (tracker self)) \<le> n_models self \<Longrightarrow>
   int (length (tracker (fst (run R self calls)))) \<le> n_models self"
proof (induction calls arbitrary: self)
  case Nil
  then show ?case by simp
next
  case (Cons call calls)
  obtain epoch logs0 where call: "call = (epoch, logs0)" by (cases call)
  let ?s = "state (on_epoch_end R self epoch logs0)"
  have "int (length (tracker ?s)) \<le> n_models ?s"
    using on_epoch_end_bounded[OF Cons.prems] by (simp add: on_epoch_end_config)
  from Cons.IH[OF this] show ?case
    unfolding call run_Cons by (simp add: on_epoch_end_config)
qed

lemma announce_no_file_ops: "announce self = Inr es \<Longrightarrow> file_ops es = [] \<and> saved es = [] \<and> removed es = []"
  by (auto simp: announce_def file_ops_def split: if_splits sum.splits)

lemma finish_discard:
  "file_ops (effects (finish self (announce self') [])) = []"
  "saved (effects (finish self (announce self') [])) = []"
  "removed (effects (finish self (announce self') [])) = []"
  by (auto simp: finish_def announce_def file_ops_def split: sum.splits)

lemma saved_append [simp]: "saved (xs @ ys) = saved xs @ saved ys"
  by (induction xs rule: saved.induct) simp_all

lemma removed_append [simp]: "removed (xs @ ys) = removed xs @ removed ys"
  by (induction xs rule: removed.induct) simp_all

lemma file_ops_append [simp]: "file_ops (xs @ ys) = file_ops xs @ file_ops ys"
  by (simp add: file_ops_def)

lemma file_ops_simps [simp]:
  "file_ops [] = []"
  "file_ops (Remove q # es) = Remove q # file_ops es"
  "file_ops (persist self p # es) = persist self p # file_ops es"
  "file_ops (Warn m # es) = file_ops es"
  "file_ops (Print xs # es) = file_ops es"
  by (simp_all add: file_ops_def persist_def)

lemma printed_no_file_ops [simp]:
  "file_ops (printed self) = []" "saved (printed self) = []" "removed (printed self) = []"
  by (simp_all add: printed_def file_ops_def)

lemma persist_simps [simp]:
  "saved [persist self path] = [path]"
  "removed [persist self path] = []"
  "file_ops [persist self path] = [persist self path]"
  "saved (persist self path # es) = path # saved es"
  "removed (persist self path # es) = removed es"
  by (simp_all add: persist_def file_ops_def)

lemma finish_after:
  "file_ops (effects (finish self (announce self') after)) = []
   \<or> file_ops (effects (finish self (announce self') after)) = file_ops after"
  by (auto simp: finish_def announce_def file_ops_def split: sum.splits)

lemma effects_shape:
  "file_ops (effects (on_epoch_end R self epoch logs0)) = []
   \<or> (\<exists>p. file_ops (effects (on_epoch_end R self epoch logs0)) = [persist self p])
   \<or> (\<exists>q p. file_ops (effects (on_epoch_end R self epoch logs0)) = [Remove q, persist self p])"
proof (cases rule: on_epoch_end_cases[where self=self and R=R and epoch=epoch and ?logs0.0=logs0])
  case (nan path current)
  let ?s = "self\<lparr>epochs_since_last_save := 0\<rparr>"
  from finish_after[of ?s ?s "[Remove path, persist self path]"] on_epoch_end_nan[OF nan]
  show ?thesis by auto
qed (auto simp: on_epoch_end_skip on_epoch_end_format_error on_epoch_end_missing on_epoch_end_push
        on_epoch_end_replace on_epoch_end_discard finish_discard Let_def)

lemma saved_file_ops: "saved (file_ops es) = saved es"
  by (induction es rule: saved.induct) (simp_all add: file_ops_def)

lemma removed_file_ops: "removed (file_ops es) = removed es"
  by (induction es rule: removed.induct) (simp_all add: file_ops_def)

lemma file_ops_eqD: "file_ops es = fs \<Longrightarrow> saved es = saved fs \<and> removed es = removed fs"
  by (metis saved_file_ops removed_file_ops)

lemma startswith_iff: "startswith s p \<longleftrightarrow> (\<exists>b. s = p @ b)"
  by (induction s p rule: startswith.induct) auto

lemma contains_iff: "contains s sub \<longleftrightarrow> (\<exists>a b. s = a @ sub @ b)"
proof (induction s)
  case Nil
  then show ?case by simp
next
  case (Cons c cs)
  show ?case
  proof
    assume "contains (c # cs) sub"
    then consider "startswith (c # cs) sub" | "contains cs sub" by auto
    then show "\<exists>a b. c # cs = a @ sub @ b"
    proof cases
      case 1
      then obtain b where "c # cs = sub @ b" by (auto simp: startswith_iff)
      then have "c # cs = [] @ sub @ b" by simp
      then show ?thesis by blast
    next
      case 2
      with Cons.IH obtain a b where "cs = a @ sub @ b" by auto
      then have "c # cs = (c # a) @ sub @ b" by simp
      then show ?thesis by blast
    qed
  next
    assume "\<exists>a b. c # cs = a @ sub @ b"
    then obtain a b where ab: "c # cs = a @ sub @ b" by auto
    show "contains (c # cs) sub"
    proof (cases a)
      case Nil
      with ab have "startswith (c # cs) sub" by (auto simp: startswith_iff)
      then show ?thesis by simp
    next
      case (Cons x a')
      with ab have "cs = a' @ sub @ b" by simp
      with Cons.IH have "contains cs sub" by blast
      then show ?thesis by simp
    qed
  qed
qed

lemma heappush_set: "set (heappush lt h x) = insert x (set h)"
  using heappush_mset[of lt h x] by (metis set_mset_mset set_mset_add_mset_insert)

lemma heappushpop_set: "set (snd (heappushpop lt h x)) \<subseteq> insert x (set h)"
proof (cases "h \<noteq> [] \<and> lt (h ! 0) x")
  case True
  then have "set_mset (mset (snd (heappushpop lt h x))) = set_mset (add_mset x (mset h - {#h ! 0#}))"
    using heappushpop_swap(2)[of h lt x] by simp
  then have "set (snd (heappushpop lt h x)) = insert x (set_mset (mset h - {#h ! 0#}))" by simp
  also have "\<dots> \<subseteq> insert x (set h)" using in_diffD by fastforce
  finally show ?thesis .
next
  case False
  then have "heappushpop lt h x = (x, h)" by (intro heappushpop_keep) auto
  then show ?thesis by auto
qed

lemma new_entries:
  assumes "x \<in> set (tracker (state (on_epoch_end R self epoch logs0)))" and "x \<notin> set (tracker self)"
  shows "\<exists>current path. logs_or_empty logs0 (monitor self) = Some current
           \<and> format_path R (filepath self) (epoch + 1) (logs_or_empty logs0) = Inr path
           \<and> x = (float_mul current (coef self), epoch + 1, path)"
  using assms
proof (cases rule: on_epoch_end_cases[where self=self and R=R and epoch=epoch and ?logs0.0=logs0])
  case (push path current)
  with assms show ?thesis
    by (auto simp: on_epoch_end_push Let_def heappush_set candidate_def)
next
  case (replace path current)
  with assms heappushpop_set[of entry_lt "tracker self" "candidate self epoch current path"]
  show ?thesis
    by (auto simp: on_epoch_end_replace Let_def candidate_def)
next
  case (discard path current)
  with assms show ?thesis by (simp add: on_epoch_end_discard)
next
  case (nan path current)
  with assms show ?thesis by (simp add: on_epoch_end_nan)
qed (simp_all add: on_epoch_end_skip on_epoch_end_format_error on_epoch_end_missing)

lemma run_coef: "coef (fst (run R self calls)) = coef self"
proof (induction calls arbitrary: self)
  case Nil
  then show ?case by simp
next
  case (Cons call calls)
  obtain epoch logs0 where call: "call = (epoch, logs0)" by (cases call)
  show ?case unfolding call run_Cons by (simp add: Cons.IH on_epoch_end_config)
qed

lemma init_known_mode:
  assumes "mode \<in> {''auto'', ''min'', ''max''}"
  shows "snd (init fp mon vb n w mode per) = []"
  using assms by (auto simp: init_def Let_def split: prod.splits)

lemma init_coef:
  "coef (fst (init fp mon vb n w ''min'' per)) = - 1"
  "coef (fst (init fp mon vb n w ''max'' per)) = 1"
  "coef (fst (init fp mon vb n w ''auto'' per)) =
     (if contains mon ''acc'' \<or> startswith mon ''fmeasure'' then 1 else - 1)"
  by (simp_all add: init_def Let_def split: prod.splits)

lemma init_unknown_mode:
  assumes "mode \<notin> {''auto'', ''min'', ''max''}"
  shows "init fp mon vb n w mode per =
    (fst (init fp mon vb n w ''auto'' per),
     [Warn (''ModelCheckpoint mode '' @ mode @ '' is unknown, fallback to auto mode.'')])"
  using assms by (simp add: init_def Let_def split: prod.splits)

lemma is_heap_Nil [simp]: "is_heap []"
  by (simp add: is_heap_def)

lemma run_append:
  "run R self (xs @ ys) =
     (fst (run R (fst (run R self xs)) ys), snd (run R self xs) @ snd (run R (fst (run R self xs)) ys))"
proof (induction xs arbitrary: self)
  case Nil
  then show ?case by simp
next
  case (Cons call xs)
  obtain epoch logs0 where call: "call = (epoch, logs0)" by (cases call)
  have "run R self ((call # xs) @ ys) =
      (fst (run R self ((epoch, logs0) # (xs @ ys))), snd (run R self ((epoch, logs0) # (xs @ ys))))"
    by (simp add: call)
  also have "\<dots> = (fst (run R (fst (run R self (call # xs))) ys),
      snd (run R self (call # xs)) @ snd (run R (fst (run R self (call # xs))) ys))"
    unfolding call run_Cons by (simp add: Cons.IH)
  finally show ?case .
qed

lemma heappush_empty: "heappush lt [] x = [x]"
  by (simp add: heappush_def siftdown_def siftdown_loop.simps)
subsection \<open>Runs without NaN: auxiliary facts\<close>


lemma float_mul_unit: "c = 1 \<or> c = - 1 \<Longrightarrow> float_mul x c = NaN \<longleftrightarrow> x = NaN"
  by (cases x) auto

lemma float_mul_unit_coef: "unit_coef self \<Longrightarrow> float_mul x (coef self) = NaN \<longleftrightarrow> x = NaN"
  by (simp add: unit_coef_def float_mul_unit)

lemma init_unit_coef: "unit_coef (fst (init fp mon vb n w mode per))"
  by (simp add: init_def Let_def unit_coef_def split: prod.splits)

lemma zero_pool_step:
  assumes "n_models self \<le> 0" and "tracker self = []" and "unit_coef self"
    and "logs_or_empty logs0 (monitor self) \<noteq> Some NaN"
  shows "tracker (state (on_epoch_end R self epoch logs0)) = []
         \<and> saved (effects (on_epoch_end R self epoch logs0)) = []
         \<and> removed (effects (on_epoch_end R self epoch logs0)) = []"
  using assms
  by (cases rule: on_epoch_end_cases[where self=self and R=R and epoch=epoch and ?logs0.0=logs0])
     (simp_all add: on_epoch_end_skip on_epoch_end_format_error on_epoch_end_missing
        on_epoch_end_discard finish_discard float_mul_unit_coef)

lemma zero_pool_run:
  assumes "n_models self \<le> 0" and "tracker self = []" and "unit_coef self"
    and "nan_free (monitor self) calls"
  shows "tracker (fst (run R self calls)) = [] \<and> saved (snd (run R self calls)) = []
         \<and> removed (snd (run R self calls)) = []"
  using assms
proof (induction calls arbitrary: self)
  case Nil
  then show ?case by simp
next
  case (Cons call calls)
  obtain epoch logs0 where call: "call = (epoch, logs0)" by (cases call)
  let ?s = "state (on_epoch_end R self epoch logs0)"
  from Cons.prems(4) have here: "logs_or_empty logs0 (monitor self) \<noteq> Some NaN"
    and nf: "nan_free (monitor self) calls" by (simp_all add: nan_free_def call)
  note st = zero_pool_step[OF Cons.prems(1,2,3) here, of R epoch]
  have "n_models ?s \<le> 0" "unit_coef ?s" "nan_free (monitor ?s) calls"
    using Cons.prems(1,3) nf by (simp_all add: on_epoch_end_config unit_coef_def)
  from Cons.IH[OF this(1) _ this(2,3)] st show ?case
    unfolding call run_Cons by simp
qed

lemma fs_ok_printed [simp]: "fs_ok N live (printed self @ es) = fs_ok N live es"
  by (simp add: printed_def)

lemma fs_ok_persist [simp]:
  "fs_ok N live (persist self p # es) = (length (p # live) \<le> N \<and> fs_ok N (p # live) es)"
  by (simp add: persist_def)

lemma fs_ok_quiet:
  assumes "file_ops es = []"
  shows "fs_ok N live (es @ rest) = fs_ok N live rest"
  using assms by (induction N live es rule: fs_ok.induct) (simp_all add: file_ops_def)

lemma run_fs_ok:
  assumes "mset live = image_mset path_of (mset (tracker self))"
    and "length (tracker self) \<le> nat (n_models self)"
    and "unit_coef self" and "nan_free (monitor self) calls"
  shows "fs_ok (nat (n_models self)) live (snd (run R self calls))"
  using assms
proof (induction calls arbitrary: self live)
  case Nil
  then show ?case by simp
next
  case (Cons call calls)
  obtain epoch logs0 where call: "call = (epoch, logs0)" by (cases call)
  let ?out = "on_epoch_end R self epoch logs0"
  let ?N = "nat (n_models self)"
  have len: "length live = length (tracker self)"
    using Cons.prems(1) by (metis size_mset size_image_mset)
  from Cons.prems(4) have here: "logs_or_empty logs0 (monitor self) \<noteq> Some NaN"
    and nf: "nan_free (monitor self) calls" by (simp_all add: nan_free_def call)
  note uc = Cons.prems(3)
  have same: "fs_ok ?N live (effects ?out @ snd (run R (state ?out) calls))"
    if t: "tracker (state ?out) = tracker self" and q: "file_ops (effects ?out) = []"
  proof -
    have "fs_ok (nat (n_models (state ?out))) live (snd (run R (state ?out) calls))"
      using Cons.prems(1,2) uc nf by (intro Cons.IH) (simp_all add: t on_epoch_end_config unit_coef_def)
    then show ?thesis by (simp add: fs_ok_quiet[OF q] on_epoch_end_config)
  qed
  show ?case
    unfolding call run_Cons
  proof (cases rule: on_epoch_end_cases[where self=self and R=R and epoch=epoch and ?logs0.0=logs0])
    case skip
    then show "fs_ok ?N live (effects ?out @ snd (run R (state ?out) calls))"
      by (intro same) (simp_all add: on_epoch_end_skip)
  next
    case (format_error e)
    then show "fs_ok ?N live (effects ?out @ snd (run R (state ?out) calls))"
      by (intro same) (simp_all add: on_epoch_end_format_error)
  next
    case (missing path)
    then show "fs_ok ?N live (effects ?out @ snd (run R (state ?out) calls))"
      by (intro same) (simp_all add: on_epoch_end_missing)
  next
    case (discard path current)
    then show "fs_ok ?N live (effects ?out @ snd (run R (state ?out) calls))"
      by (intro same) (simp_all add: on_epoch_end_discard finish_discard)
  next
    case (push path current)
    let ?c = "candidate self epoch current path"
    let ?s = "self\<lparr>epochs_since_last_save := 0, tracker := heappush entry_lt (tracker self) ?c\<rparr>"
    have out: "?out = \<lparr>state = ?s, effects = printed ?s @ [persist self path], raised = None\<rparr>"
      using on_epoch_end_push[OF push] by (simp add: Let_def)
    have 1: "mset (path # live) = image_mset path_of (mset (tracker ?s))"
      using Cons.prems(1) by (simp add: heappush_mset candidate_def)
    have 2: "length (tracker ?s) \<le> nat (n_models ?s)"
      using push(4) by (simp add: heappush_length)
    have "fs_ok (nat (n_models ?s)) (path # live) (snd (run R ?s calls))"
      using 1 2 uc nf by (intro Cons.IH) (simp_all add: unit_coef_def)
    moreover have "length (path # live) \<le> ?N" using push(4) len by simp
    ultimately show "fs_ok ?N live (effects ?out @ snd (run R (state ?out) calls))"
      by (simp add: out)
  next
    case (replace path current)
    let ?c = "candidate self epoch current path"
    let ?h = "snd (heappushpop entry_lt (tracker self) ?c)"
    let ?s = "self\<lparr>epochs_since_last_save := 0, tracker := ?h\<rparr>"
    let ?q = "path_of (tracker self ! 0)"
    have out: "?out = \<lparr>state = ?s, effects = printed ?s @ [Remove ?q, persist self path], raised = None\<rparr>"
      using on_epoch_end_replace[OF replace] by (simp add: Let_def)
    have root: "tracker self ! 0 \<in># mset (tracker self)" using replace(5) by simp
    have qin: "?q \<in> set live"
    proof -
      have "?q \<in># image_mset path_of (mset (tracker self))" using root by (rule imageI[THEN multiset.set_map[THEN equalityD2, THEN subsetD]])
      then show ?thesis using Cons.prems(1) by (metis set_mset_mset)
    qed
    have "mset ?h = add_mset ?c (mset (tracker self) - {#tracker self ! 0#})"
      using heappushpop_swap(2)[where lt=entry_lt, OF replace(5,6)] .
    then have "image_mset path_of (mset ?h) =
        add_mset path (image_mset path_of (mset (tracker self)) - {#?q#})"
      using root by (simp add: image_mset_Diff candidate_def)
    then have 1: "mset (path # remove1 ?q live) = image_mset path_of (mset (tracker ?s))"
      using Cons.prems(1) by simp
    have 2: "length (tracker ?s) \<le> nat (n_models ?s)"
      using Cons.prems(2) by (simp add: heappushpop_length)
    have "fs_ok (nat (n_models ?s)) (path # remove1 ?q live) (snd (run R ?s calls))"
      using 1 2 uc nf by (intro Cons.IH) (simp_all add: unit_coef_def)
    moreover have "length (path # remove1 ?q live) \<le> ?N"
      using qin len Cons.prems(2) replace(5) by (simp add: length_remove1)
    ultimately show "fs_ok ?N live (effects ?out @ snd (run R (state ?out) calls))"
      using qin by (simp add: out)
  next
    case (nan path current)
    from nan(5) uc have "current = NaN" by (simp add: float_mul_unit_coef)
    with nan(3) here show "fs_ok ?N live (effects ?out @ snd (run R (state ?out) calls))" by simp
  qed
qed

lemma plain_ok_Nil:
  assumes "distinct G" and "card (set S - set G) \<le> N"
  shows "plain_ok N S G []"
  using assms by (simp add: plain_ok_def)

lemma plain_ok_Cons:
  assumes "plain_ok N (S @ saved [e]) (G @ removed [e]) es"
    and "card (set S - set G) \<le> N"
    and "\<And>p. e = Remove p \<Longrightarrow> p \<in> set S"
  shows "plain_ok N S G (e # es)"
  unfolding plain_ok_def
proof (intro conjI allI impI)
  show "distinct (G @ removed (e # es))"
    using assms(1) removed_append[of "[e]" es] by (simp add: plain_ok_def)
next
  fix i p assume i: "i < length (e # es)" and r: "(e # es) ! i = Remove p"
  show "p \<in> set (S @ saved (take i (e # es)))"
  proof (cases i)
    case 0
    with r assms(3) show ?thesis by simp
  next
    case (Suc j)
    with i r have "j < length es" "es ! j = Remove p" by simp_all
    with assms(1) have "p \<in> set ((S @ saved [e]) @ saved (take j es))" by (simp add: plain_ok_def)
    then show ?thesis using Suc saved_append[of "[e]" "take j es"] by simp
  qed
next
  fix k assume k: "k \<le> length (e # es)"
  show "card (set (S @ saved (take k (e # es))) - set (G @ removed (take k (e # es)))) \<le> N"
  proof (cases k)
    case 0
    with assms(2) show ?thesis by simp
  next
    case (Suc j)
    with k have "j \<le> length es" by simp
    with assms(1) have "card (set ((S @ saved [e]) @ saved (take j es))
        - set ((G @ removed [e]) @ removed (take j es))) \<le> N" by (simp add: plain_ok_def)
    then show ?thesis
      using Suc saved_append[of "[e]" "take j es"] removed_append[of "[e]" "take j es"] by simp
  qed
qed

lemma fs_ok_plain:
  assumes "fs_ok N live es" and "distinct (S @ saved es)" and "set live = set S - set G"
    and "distinct live" and "distinct G" and "set G \<subseteq> set S" and "length live \<le> N"
  shows "plain_ok N S G es"
  using assms
proof (induction es arbitrary: live S G)
  case Nil
  have "card (set S - set G) = length live" using Nil.prems(3,4) by (metis distinct_card)
  with Nil.prems show ?case by (intro plain_ok_Nil) simp_all
next
  case (Cons e es)
  have card: "card (set S - set G) \<le> N"
    using Cons.prems(3,4,7) by (metis distinct_card)
  have quiet: "plain_ok N S G (e # es)"
    if "saved [e] = []" "removed [e] = []" "fs_ok N live es" "saved (e # es) = saved es"
  proof (rule plain_ok_Cons)
    show "plain_ok N (S @ saved [e]) (G @ removed [e]) es"
      using that Cons.prems by (intro Cons.IH[of live]) simp_all
    show "card (set S - set G) \<le> N" by (rule card)
    show "\<And>p. e = Remove p \<Longrightarrow> p \<in> set S" using that(2) by auto
  qed
  have save: "plain_ok N S G (e # es)"
    if e: "saved [e] = [p]" "removed [e] = []" "saved (e # es) = p # saved es"
      and ok: "length (p # live) \<le> N" "fs_ok N (p # live) es" for p
  proof (rule plain_ok_Cons)
    from Cons.prems(2) e(3) have fresh: "p \<notin> set S" and d: "distinct ((S @ [p]) @ saved es)" by auto
    have "set (p # live) = set (S @ [p]) - set G"
      using Cons.prems(3,6) fresh by auto
    moreover have "distinct (p # live)" using Cons.prems(3,4) fresh by auto
    moreover have "set G \<subseteq> set (S @ [p])" using Cons.prems(6) by auto
    ultimately show "plain_ok N (S @ saved [e]) (G @ removed [e]) es"
      using ok d Cons.prems(5) e by (intro Cons.IH[of "p # live"]) simp_all
    show "card (set S - set G) \<le> N" by (rule card)
    show "\<And>q. e = Remove q \<Longrightarrow> q \<in> set S" using e(1) by auto
  qed
  show ?case
  proof (cases e)
    case (Warn m)
    with Cons.prems(1) show ?thesis by (intro quiet) simp_all
  next
    case (Print xs)
    with Cons.prems(1) show ?thesis by (intro quiet) simp_all
  next
    case (Save p)
    with Cons.prems(1) show ?thesis by (intro save[of p]) simp_all
  next
    case (SaveWeights p)
    with Cons.prems(1) show ?thesis by (intro save[of p]) simp_all
  next
    case (Remove p)
    with Cons.prems(1) have pin: "p \<in> set live" and ok: "fs_ok N (remove1 p live) es" by simp_all
    from pin Cons.prems(3) have pS: "p \<in> set S" and pG: "p \<notin> set G" by auto
    show ?thesis
    proof (rule plain_ok_Cons)
      have "set (remove1 p live) = set S - set (G @ [p])"
        using Cons.prems(3,4) by auto
      moreover have "distinct (remove1 p live)" using Cons.prems(4) by simp
      moreover have "distinct (G @ [p])" using Cons.prems(5) pG by simp
      moreover have "set (G @ [p]) \<subseteq> set S" using Cons.prems(6) pS by simp
      moreover have "length (remove1 p live) \<le> N" using Cons.prems(7) pin by (simp add: length_remove1)
      moreover have "distinct (S @ saved es)" using Cons.prems(2) Remove by simp
      ultimately show "plain_ok N (S @ saved [e]) (G @ removed [e]) es"
        using ok Remove by (intro Cons.IH[of "remove1 p live"]) simp_all
      show "card (set S - set G) \<le> N" by (rule card)
      show "\<And>q. e = Remove q \<Longrightarrow> q \<in> set S" using Remove pS by simp
    qed
  qed
qed

lemma saved_effects:
  "saved (effects (on_epoch_end R self epoch logs0)) = []
   \<or> saved (effects (on_epoch_end R self epoch logs0)) =
       (if eligible self
        then (case format_path R (filepath self) (epoch + 1) (logs_or_empty logs0) of
                Inl e \<Rightarrow> [] | Inr path \<Rightarrow> [path])
        else [])"
proof (cases rule: on_epoch_end_cases[where self=self and R=R and epoch=epoch and ?logs0.0=logs0])
  case (nan path current)
  let ?s = "self\<lparr>epochs_since_last_save := 0\<rparr>"
  let ?es = "effects (finish ?s (announce ?s) [Remove path, persist self path])"
  from finish_after[of ?s ?s "[Remove path, persist self path]"]
  have "saved (file_ops ?es) = [] \<or> saved (file_ops ?es) = [path]" by auto
  then show ?thesis
    unfolding saved_file_ops on_epoch_end_nan[OF nan] using nan(1,2) by simp
qed (simp_all add: on_epoch_end_skip on_epoch_end_format_error on_epoch_end_missing on_epoch_end_push
        on_epoch_end_replace on_epoch_end_discard finish_discard Let_def)

lemma saved_resolved_step:
  assumes "set sv \<subseteq> set rs" and "distinct rs \<Longrightarrow> distinct sv" and "s = [] \<or> s = r"
  shows "set (s @ sv) \<subseteq> set (r @ rs) \<and> (distinct (r @ rs) \<longrightarrow> distinct (s @ sv))"
  using assms by auto

lemma saved_resolved:
  "set (saved (snd (run R self calls))) \<subseteq> set (resolved R self calls)
   \<and> (distinct (resolved R self calls) \<longrightarrow> distinct (saved (snd (run R self calls))))"
proof (induction calls arbitrary: self)
  case Nil
  then show ?case by simp
next
  case (Cons call calls)
  obtain epoch logs0 where call: "call = (epoch, logs0)" by (cases call)
  let ?out = "on_epoch_end R self epoch logs0"
  let ?r = "if eligible self
        then (case format_path R (filepath self) (epoch + 1) (logs_or_empty logs0) of
                Inl e \<Rightarrow> [] | Inr path \<Rightarrow> [path])
        else []"
  note IH = Cons.IH[of "state ?out"]
  have res: "resolved R self (call # calls) = ?r @ resolved R (state ?out) calls"
    by (simp add: call)
  have sv: "saved (snd (run R self (call # calls))) =
      saved (effects ?out) @ saved (snd (run R (state ?out) calls))"
    unfolding call run_Cons(2) by (rule saved_append)
  from IH have sub: "set (saved (snd (run R (state ?out) calls))) \<subseteq> set (resolved R (state ?out) calls)"
    and dis: "distinct (resolved R (state ?out) calls) \<Longrightarrow> distinct (saved (snd (run R (state ?out) calls)))"
    by simp_all
  show ?case
    unfolding res sv
    by (rule saved_resolved_step[OF sub dis saved_effects])
qed


section \<open>Decimal numbers and path templates\<close>






















section \<open>Runs without NaN\<close>

text \<open>
  With a pool of capacity zero and no NaN among the monitored values, a run from a fresh
  instance keeps the tracker empty, saves nothing and removes nothing.
\<close>

lemma zero_models_without_nan:
  assumes "nan_free mon calls"
  shows "tracker (fst (run R (fst (init fp mon vb 0 w mode per)) calls)) = []
   \<and> saved (snd (run R (fst (init fp mon vb 0 w mode per)) calls)) = []
   \<and> removed (snd (run R (fst (init fp mon vb 0 w mode per)) calls)) = []"
  using zero_pool_run[of "fst (init fp mon vb 0 w mode per)" calls R] assms
  by (simp add: init_fields init_unit_coef)

text \<open>
  When no monitored value is NaN and the resolved paths are pairwise distinct, every removal
  in the trace of a run from a fresh instance is of a path saved earlier, no path is removed
  twice, and after every prefix of the trace at most \<open>n_models\<close> saved files are not yet
  removed.
\<close>

lemma file_lifecycle_without_nan:
  assumes "nan_free mon calls"
    and "distinct (resolved R (fst (init fp mon vb n w mode per)) calls)"
    and "tr = snd (run R (fst (init fp mon vb n w mode per)) calls)"
  shows "(\<forall>i<length tr. \<forall>p. tr ! i = Remove p \<longrightarrow> p \<in> set (saved (take i tr)))
       \<and> distinct (removed tr)
       \<and> (\<forall>k\<le>length tr. card (set (saved (take k tr)) - set (removed (take k tr))) \<le> nat n)"
proof -
  let ?self = "fst (init fp mon vb n w mode per)"
  have "fs_ok (nat (n_models ?self)) [] (snd (run R ?self calls))"
    using assms(1) by (intro run_fs_ok) (simp_all add: init_fields init_unit_coef)
  then have ok: "fs_ok (nat n) [] tr" by (simp add: assms(3) init_fields)
  have d: "distinct ([] @ saved tr)"
    using saved_resolved[of R ?self calls] assms by simp
  from fs_ok_plain[OF ok d, of "[]"] have "plain_ok (nat n) [] [] tr" by simp
  then show ?thesis by (simp add: plain_ok_def)
qed


section \<open>The claims\<close>

subsection \<open>Replacing the minimum of a full pool\<close>

text \<open>
  Claim C1 says that on a full pool the candidate either replaces the minimum (the old file
  removed, the new one saved) or is discarded with no save, no removal and the pool
  unchanged. The code decides which by comparing what \<^verbatim>\<open>heappushpop\<close> hands back with a
  rebuilt candidate tuple (line 87). A candidate whose score is NaN is handed back, since
  NaN is above nothing, but it is not equal to the rebuilt tuple, since NaN equals nothing.
  Here the pool of capacity 2 holds the checkpoints of epochs 1 and 2 and the third epoch
  reports NaN: the tracker is left as it was, which is the discard of the claim, and yet the
  call removes the candidate's own path, which was never saved, and then saves to it.
\<close>

theorem nan_candidate_on_full_pool:
  "let self = fst (run unsupported (fst (init ''m.h5'' ''val_loss'' 0 2 False ''min'' 1))
                [(0, Some [''val_loss'' \<mapsto> Finite 0.5]), (1, Some [''val_loss'' \<mapsto> Finite 0.3])]);
       out = on_epoch_end unsupported self 2 (Some [''val_loss'' \<mapsto> NaN])
   in tracker self = [(Finite (- 0.5), 1, ''m_1.h5''), (Finite (- 0.3), 2, ''m_2.h5'')]
      \<and> epochs_since_last_save self + 1 \<ge> period self
      \<and> format_path unsupported (filepath self) (2 + 1) (logs_or_empty (Some [''val_loss'' \<mapsto> NaN]))
          = Inr ''m_3.h5''
      \<and> logs_or_empty (Some [''val_loss'' \<mapsto> NaN]) (monitor self) = Some NaN
      \<and> int (length (tracker self)) \<ge> n_models self
      \<and> candidate self 2 NaN ''m_3.h5'' = (NaN, 3, ''m_3.h5'')
      \<and> entry_lt (tracker self ! 0) (candidate self 2 NaN ''m_3.h5'') = False
      \<and> tracker (state out) = tracker self
      \<and> effects out = [Remove ''m_3.h5'', Save ''m_3.h5'']
      \<and> raised out = None"
  by code_simp

subsection \<open>The size of the pool\<close>

text \<open>
  Claim C2. Starting from a freshly constructed instance with a positive \<open>n_models\<close>, the
  tracker holds at most \<open>n_models\<close> entries after every sequence of calls, whatever the
  epochs and logs: a call pushes only while the tracker is shorter than \<open>n_models\<close>, and
  \<^verbatim>\<open>heappushpop\<close> leaves the length as it is.
\<close>

theorem pool_bounded:
  "0 < n \<Longrightarrow> int (length (tracker (fst (run R (fst (init fp mon vb n w mode per)) calls)))) \<le> n"
  using run_bounded[of "fst (init fp mon vb n w mode per)" R calls] by (simp add: init_fields)

theorem pool_bounded_witness:
  "(0::int) < 2 \<and>
   int (length (tracker (fst (run unsupported (fst (init ''m.h5'' ''val_loss'' 0 2 False ''min'' 1))
     [(0, Some [''val_loss'' \<mapsto> Finite 0.5]), (1, Some [''val_loss'' \<mapsto> Finite 0.3]),
      (2, Some [''val_loss'' \<mapsto> Finite 0.4])])))) \<le> 2"
  using pool_bounded[of 2 unsupported "''m.h5''" "''val_loss''" 0 False "''min''" 1
    "[(0, Some [''val_loss'' \<mapsto> Finite 0.5]), (1, Some [''val_loss'' \<mapsto> Finite 0.3]),
      (2, Some [''val_loss'' \<mapsto> Finite 0.4])]"]
  by simp

subsection \<open>The life of the checkpoint files\<close>

text \<open>
  Claim C3 says that, when the resolved paths are pairwise distinct and the file operations
  succeed, every path removed was saved by an earlier call, no path is removed twice and the
  files saved and not removed never exceed \<open>n_models\<close>. The run below has capacity 2 and
  reports 0.5, 0.3 and NaN. Its three resolved paths are distinct. The third call removes
  \<^verbatim>\<open>m_3.h5\<close>, which no earlier call saved, and then saves it without tracking it, so that
  three files are left for a capacity of 2: the replay of the effects against the live files
  fails. This is the NaN candidate of line 87 again.
\<close>

theorem nan_removes_unsaved_path:
  "let calls = [(0, Some [''val_loss'' \<mapsto> Finite 0.5]), (1, Some [''val_loss'' \<mapsto> Finite 0.3]),
                (2, Some [''val_loss'' \<mapsto> NaN])];
       start = fst (init ''m.h5'' ''val_loss'' 0 2 False ''min'' 1);
       tr = snd (run unsupported start calls)
   in resolved unsupported start calls = [''m_1.h5'', ''m_2.h5'', ''m_3.h5'']
      \<and> distinct (resolved unsupported start calls)
      \<and> tr = [Save ''m_1.h5'', Save ''m_2.h5'', Remove ''m_3.h5'', Save ''m_3.h5'']
      \<and> tr ! 2 = Remove ''m_3.h5''
      \<and> saved (take 2 tr) = [''m_1.h5'', ''m_2.h5'']
      \<and> fs_ok 2 [] tr = False
      \<and> tracker (fst (run unsupported start calls)) =
          [(Finite (- 0.5), 1, ''m_1.h5''), (Finite (- 0.3), 2, ''m_2.h5'')]"
  by code_simp

subsection \<open>The file operations of one call\<close>

text \<open>
  Claim C4. A call saves at most one file and removes at most one file. A call that
  removes a file performs exactly two file operations, the removal first and the save
  after it. In particular a replacement call (the call is evaluated, the path resolves, the
  monitored value is present, the pool is full and its first entry is below the candidate)
  removes the file of that first entry and then saves the candidate's file.
\<close>

theorem effects_per_call:
  "length (saved (effects (on_epoch_end R self epoch logs0))) \<le> 1
   \<and> length (removed (effects (on_epoch_end R self epoch logs0))) \<le> 1
   \<and> (removed (effects (on_epoch_end R self epoch logs0)) \<noteq> [] \<longrightarrow>
        (\<exists>q p. file_ops (effects (on_epoch_end R self epoch logs0)) = [Remove q, persist self p]))
   \<and> (eligible self
        \<and> format_path R (filepath self) (epoch + 1) (logs_or_empty logs0) = Inr path
        \<and> logs_or_empty logs0 (monitor self) = Some current
        \<and> int (length (tracker self)) \<ge> n_models self
        \<and> tracker self \<noteq> [] \<and> entry_lt (tracker self ! 0) (candidate self epoch current path) \<longrightarrow>
        file_ops (effects (on_epoch_end R self epoch logs0)) =
          [Remove (snd (snd (tracker self ! 0))), persist self path])"
proof -
  let ?es = "effects (on_epoch_end R self epoch logs0)"
  have sh: "file_ops ?es = [] \<or> (\<exists>p. file_ops ?es = [persist self p])
     \<or> (\<exists>q p. file_ops ?es = [Remove q, persist self p])" by (rule effects_shape)
  have 123: "length (saved ?es) \<le> 1 \<and> length (removed ?es) \<le> 1
    \<and> (removed ?es \<noteq> [] \<longrightarrow> (\<exists>q p. file_ops ?es = [Remove q, persist self p]))"
    using sh
  proof (elim disjE exE)
    assume a: "file_ops ?es = []"
    from file_ops_eqD[OF a] show ?thesis by simp
  next
    fix p assume a: "file_ops ?es = [persist self p]"
    from file_ops_eqD[OF a] show ?thesis by simp
  next
    fix q p assume a: "file_ops ?es = [Remove q, persist self p]"
    from file_ops_eqD[OF a] a show ?thesis by auto
  qed
  have 4: "eligible self
        \<and> format_path R (filepath self) (epoch + 1) (logs_or_empty logs0) = Inr path
        \<and> logs_or_empty logs0 (monitor self) = Some current
        \<and> int (length (tracker self)) \<ge> n_models self
        \<and> tracker self \<noteq> [] \<and> entry_lt (tracker self ! 0) (candidate self epoch current path) \<longrightarrow>
        file_ops ?es = [Remove (snd (snd (tracker self ! 0))), persist self path]"
    by (auto simp: on_epoch_end_replace Let_def)
  from 123 4 show ?thesis by blast
qed

theorem effects_per_call_witness:
  "removed (effects (on_epoch_end unsupported
      \<lparr>monitor = ''val_loss'', verbose = 0, filepath = ''m_{epoch:d}.h5'', n_models = 2,
       save_weights_only = False, period = 1, epochs_since_last_save = 0,
       tracker = [(Finite (- 0.5), 1, ''m_1.h5''), (Finite (- 0.3), 2, ''m_2.h5'')], coef = - 1\<rparr>
      2 (Some [''val_loss'' \<mapsto> Finite 0.4]))) = [''m_1.h5'']
   \<and> saved (effects (on_epoch_end unsupported
      \<lparr>monitor = ''val_loss'', verbose = 0, filepath = ''m_{epoch:d}.h5'', n_models = 2,
       save_weights_only = False, period = 1, epochs_since_last_save = 0,
       tracker = [(Finite (- 0.5), 1, ''m_1.h5''), (Finite (- 0.3), 2, ''m_2.h5'')], coef = - 1\<rparr>
      2 (Some [''val_loss'' \<mapsto> Finite 0.4]))) = [''m_3.h5'']
   \<and> file_ops (effects (on_epoch_end unsupported
      \<lparr>monitor = ''val_loss'', verbose = 0, filepath = ''m_{epoch:d}.h5'', n_models = 2,
       save_weights_only = False, period = 1, epochs_since_last_save = 0,
       tracker = [(Finite (- 0.5), 1, ''m_1.h5''), (Finite (- 0.3), 2, ''m_2.h5'')], coef = - 1\<rparr>
      2 (Some [''val_loss'' \<mapsto> Finite 0.4]))) = [Remove ''m_1.h5'', Save ''m_3.h5'']"
proof -
  let ?self = "\<lparr>monitor = ''val_loss'', verbose = 0, filepath = ''m_{epoch:d}.h5'', n_models = 2,
       save_weights_only = False, period = 1, epochs_since_last_save = 0,
       tracker = [(Finite (- 0.5), 1, ''m_1.h5''), (Finite (- 0.3), 2, ''m_2.h5'')], coef = - 1\<rparr>"
  let ?logs = "Some [''val_loss'' \<mapsto> Finite 0.4]"
  have h: "eligible ?self
        \<and> format_path unsupported (filepath ?self) (2 + 1) (logs_or_empty ?logs) = Inr ''m_3.h5''
        \<and> logs_or_empty ?logs (monitor ?self) = Some (Finite 0.4)
        \<and> int (length (tracker ?self)) \<ge> n_models ?self
        \<and> tracker ?self \<noteq> [] \<and> entry_lt (tracker ?self ! 0) (candidate ?self 2 (Finite 0.4) ''m_3.h5'')"
    by code_simp
  have p: "persist ?self ''m_3.h5'' = Save ''m_3.h5''" by (simp add: persist_def)
  have f: "file_ops (effects (on_epoch_end unsupported ?self 2 ?logs)) =
      [Remove ''m_1.h5'', Save ''m_3.h5'']"
    using effects_per_call[of unsupported ?self 2 ?logs "''m_3.h5''" "Finite 0.4",
      THEN conjunct2, THEN conjunct2, THEN conjunct2, THEN mp, OF h]
    unfolding p by simp
  from file_ops_eqD[OF f] f show ?thesis by simp
qed

subsection \<open>The interval between evaluations\<close>

text \<open>
  Claim C5. A call first increments the counter of epochs since the last evaluation. While
  the incremented counter is below the period, the call does nothing else: no effect, no
  exception, the tracker as it was, the counter kept for the next call. Once it reaches the
  period, the counter is reset to 0 and the call is evaluated: a formatting error of the
  path is raised, a missing monitored value is warned of, and a value that finds room in
  the pool is pushed and its file saved. So a fresh instance with period \<open>k\<close> performs no
  effect at all during its first \<open>k - 1\<close> notifications, and the \<open>k\<close>-th, when it carries
  the monitored value, its path resolves and \<open>n_models\<close> is positive, is the one that
  saves a file.
\<close>

theorem interval_gate:
  "(epochs_since_last_save self + 1 < period self \<longrightarrow>
      on_epoch_end R self epoch logs0 =
        \<lparr>state = self\<lparr>epochs_since_last_save := epochs_since_last_save self + 1\<rparr>,
         effects = [], raised = None\<rparr>)
   \<and> (epochs_since_last_save self + 1 \<ge> period self \<longrightarrow>
      epochs_since_last_save (state (on_epoch_end R self epoch logs0)) = 0)
   \<and> (epochs_since_last_save self + 1 \<ge> period self
        \<and> format_path R (filepath self) (epoch + 1) (logs_or_empty logs0) = Inl e \<longrightarrow>
      on_epoch_end R self epoch logs0 =
        \<lparr>state = self\<lparr>epochs_since_last_save := 0\<rparr>, effects = [], raised = Some e\<rparr>)
   \<and> (epochs_since_last_save self + 1 \<ge> period self
        \<and> format_path R (filepath self) (epoch + 1) (logs_or_empty logs0) = Inr path
        \<and> logs_or_empty logs0 (monitor self) = None \<longrightarrow>
      on_epoch_end R self epoch logs0 =
        \<lparr>state = self\<lparr>epochs_since_last_save := 0\<rparr>,
         effects = [Warn (''Can save best model only with '' @ monitor self @ '' available, skipping.'')],
         raised = None\<rparr>)
   \<and> (epochs_since_last_save self + 1 \<ge> period self
        \<and> format_path R (filepath self) (epoch + 1) (logs_or_empty logs0) = Inr path
        \<and> logs_or_empty logs0 (monitor self) = Some current
        \<and> int (length (tracker self)) < n_models self \<longrightarrow>
      state (on_epoch_end R self epoch logs0) =
        self\<lparr>epochs_since_last_save := 0,
             tracker := heappush entry_lt (tracker self) (float_mul current (coef self), epoch + 1, path)\<rparr>
      \<and> file_ops (effects (on_epoch_end R self epoch logs0)) = [persist self path]
      \<and> raised (on_epoch_end R self epoch logs0) = None)
   \<and> (int (length calls) < k \<longrightarrow>
      run R (fst (init fp mon vb n w mode k)) calls =
        ((fst (init fp mon vb n w mode k))\<lparr>epochs_since_last_save := int (length calls)\<rparr>, []))
   \<and> (int (length calls) + 1 = k \<and> 0 < n
        \<and> format_path R (filepath (fst (init fp mon vb n w mode k))) (epoch + 1) (logs_or_empty logs0)
            = Inr path
        \<and> logs_or_empty logs0 mon = Some current \<longrightarrow>
      fst (run R (fst (init fp mon vb n w mode k)) (calls @ [(epoch, logs0)])) =
        (fst (init fp mon vb n w mode k))
          \<lparr>epochs_since_last_save := 0,
           tracker := [(float_mul current (coef (fst (init fp mon vb n w mode k))), epoch + 1, path)]\<rparr>
      \<and> file_ops (snd (run R (fst (init fp mon vb n w mode k)) (calls @ [(epoch, logs0)]))) =
          [persist (fst (init fp mon vb n w mode k)) path])"
proof (intro conjI impI)
  assume "epochs_since_last_save self + 1 < period self"
  then have "\<not> eligible self" by (simp add: eligible_def)
  then show "on_epoch_end R self epoch logs0 =
        \<lparr>state = self\<lparr>epochs_since_last_save := epochs_since_last_save self + 1\<rparr>,
         effects = [], raised = None\<rparr>" by (rule on_epoch_end_skip)
next
  assume "epochs_since_last_save self + 1 \<ge> period self"
  then have el: "eligible self" by (simp add: eligible_def)
  show "epochs_since_last_save (state (on_epoch_end R self epoch logs0)) = 0"
  proof (cases rule: on_epoch_end_cases[where self=self and R=R and epoch=epoch and ?logs0.0=logs0])
    case skip
    with el show ?thesis by simp
  next
    case (format_error e)
    then show ?thesis by (simp add: on_epoch_end_format_error)
  next
    case (missing path)
    then show ?thesis by (simp add: on_epoch_end_missing)
  next
    case (push path current)
    then show ?thesis by (simp add: on_epoch_end_push Let_def)
  next
    case (replace path current)
    then show ?thesis by (simp add: on_epoch_end_replace Let_def)
  next
    case (discard path current)
    then show ?thesis by (simp add: on_epoch_end_discard)
  next
    case (nan path current)
    then show ?thesis by (simp add: on_epoch_end_nan)
  qed
next
  assume a: "epochs_since_last_save self + 1 \<ge> period self
        \<and> format_path R (filepath self) (epoch + 1) (logs_or_empty logs0) = Inl e"
  then have "eligible self" by (simp add: eligible_def)
  with a show "on_epoch_end R self epoch logs0 =
        \<lparr>state = self\<lparr>epochs_since_last_save := 0\<rparr>, effects = [], raised = Some e\<rparr>"
    by (simp add: on_epoch_end_format_error)
next
  assume a: "epochs_since_last_save self + 1 \<ge> period self
        \<and> format_path R (filepath self) (epoch + 1) (logs_or_empty logs0) = Inr path
        \<and> logs_or_empty logs0 (monitor self) = None"
  then have "eligible self" by (simp add: eligible_def)
  with a show "on_epoch_end R self epoch logs0 =
        \<lparr>state = self\<lparr>epochs_since_last_save := 0\<rparr>,
         effects = [Warn (''Can save best model only with '' @ monitor self @ '' available, skipping.'')],
         raised = None\<rparr>"
    by (simp add: on_epoch_end_missing)
next
  assume a: "epochs_since_last_save self + 1 \<ge> period self
        \<and> format_path R (filepath self) (epoch + 1) (logs_or_empty logs0) = Inr path
        \<and> logs_or_empty logs0 (monitor self) = Some current
        \<and> int (length (tracker self)) < n_models self"
  then have el: "eligible self" by (simp add: eligible_def)
  from a have p: "format_path R (filepath self) (epoch + 1) (logs_or_empty logs0) = Inr path"
    and c: "logs_or_empty logs0 (monitor self) = Some current"
    and l: "int (length (tracker self)) < n_models self" by simp_all
  note out = on_epoch_end_push[OF el p c l]
  show "state (on_epoch_end R self epoch logs0) =
        self\<lparr>epochs_since_last_save := 0,
             tracker := heappush entry_lt (tracker self) (float_mul current (coef self), epoch + 1, path)\<rparr>"
    by (simp add: out Let_def candidate_def)
  show "file_ops (effects (on_epoch_end R self epoch logs0)) = [persist self path]"
    by (simp add: out Let_def)
  show "raised (on_epoch_end R self epoch logs0) = None"
    by (simp add: out Let_def)
next
  let ?s = "fst (init fp mon vb n w mode k)"
  assume "int (length calls) < k"
  then have "epochs_since_last_save ?s + int (length calls) < period ?s" by (simp add: init_fields)
  from run_waiting[OF this] show "run R ?s calls = (?s\<lparr>epochs_since_last_save := int (length calls)\<rparr>, [])"
    by (simp add: init_fields)
next
  let ?I = "fst (init fp mon vb n w mode k)"
  let ?W = "?I\<lparr>epochs_since_last_save := int (length calls)\<rparr>"
  assume a: "int (length calls) + 1 = k \<and> 0 < n
        \<and> format_path R (filepath ?I) (epoch + 1) (logs_or_empty logs0) = Inr path
        \<and> logs_or_empty logs0 mon = Some current"
  then have "epochs_since_last_save ?I + int (length calls) < period ?I" by (simp add: init_fields)
  from run_waiting[OF this] have w: "run R ?I calls = (?W, [])" by (simp add: init_fields)
  have el: "eligible ?W" using a by (simp add: eligible_def init_fields)
  have p: "format_path R (filepath ?W) (epoch + 1) (logs_or_empty logs0) = Inr path" using a by simp
  have c: "logs_or_empty logs0 (monitor ?W) = Some current" using a by (simp add: init_fields)
  have l: "int (length (tracker ?W)) < n_models ?W" using a by (simp add: init_fields)
  note out = on_epoch_end_push[OF el p c l]
  have r: "run R ?I (calls @ [(epoch, logs0)]) =
      (state (on_epoch_end R ?W epoch logs0), effects (on_epoch_end R ?W epoch logs0))"
    by (simp add: run_append w Let_def split: prod.splits)
  show "fst (run R ?I (calls @ [(epoch, logs0)])) =
        ?I\<lparr>epochs_since_last_save := 0, tracker := [(float_mul current (coef ?I), epoch + 1, path)]\<rparr>"
    unfolding r by (simp add: out Let_def candidate_def init_fields heappush_empty)
  show "file_ops (snd (run R ?I (calls @ [(epoch, logs0)]))) = [persist ?I path]"
  proof -
    have "persist ?W path = persist ?I path" by (simp add: persist_def)
    then show ?thesis unfolding r by (simp add: out Let_def)
  qed
qed


theorem interval_gate_witness:
  "let I = fst (init ''m.h5'' ''val_loss'' 0 5 False ''min'' 3);
       early = [(0, Some [''val_loss'' \<mapsto> Finite 0.5]), (1, Some [''val_loss'' \<mapsto> Finite 0.3])];
       W = fst (run unsupported I early);
       third = Some [''val_loss'' \<mapsto> Finite 0.4];
       B = fst (init ''w{x}.h5'' ''val_loss'' 0 5 False ''min'' 1)
   in epochs_since_last_save I + 1 < period I
      \<and> on_epoch_end unsupported I 0 (Some [''val_loss'' \<mapsto> Finite 0.5]) =
          \<lparr>state = I\<lparr>epochs_since_last_save := epochs_since_last_save I + 1\<rparr>,
           effects = [], raised = None\<rparr>
      \<and> epochs_since_last_save W = 2
      \<and> epochs_since_last_save W + 1 \<ge> period W
      \<and> epochs_since_last_save (state (on_epoch_end unsupported W 2 third)) = 0
      \<and> epochs_since_last_save B + 1 \<ge> period B
      \<and> format_path unsupported (filepath B) (0 + 1) (logs_or_empty third) = Inl (KeyError ''x'')
      \<and> on_epoch_end unsupported B 0 third =
          \<lparr>state = B\<lparr>epochs_since_last_save := 0\<rparr>, effects = [], raised = Some (KeyError ''x'')\<rparr>
      \<and> format_path unsupported (filepath W) (2 + 1) (logs_or_empty None) = Inr ''m_3.h5''
      \<and> logs_or_empty None (monitor W) = None
      \<and> on_epoch_end unsupported W 2 None =
          \<lparr>state = W\<lparr>epochs_since_last_save := 0\<rparr>,
           effects = [Warn (''Can save best model only with '' @ monitor W @ '' available, skipping.'')],
           raised = None\<rparr>
      \<and> format_path unsupported (filepath W) (2 + 1) (logs_or_empty third) = Inr ''m_3.h5''
      \<and> logs_or_empty third (monitor W) = Some (Finite 0.4)
      \<and> int (length (tracker W)) < n_models W
      \<and> state (on_epoch_end unsupported W 2 third) =
          W\<lparr>epochs_since_last_save := 0,
            tracker := heappush entry_lt (tracker W) (float_mul (Finite 0.4) (coef W), 2 + 1, ''m_3.h5'')\<rparr>
      \<and> file_ops (effects (on_epoch_end unsupported W 2 third)) = [persist W ''m_3.h5'']
      \<and> persist W ''m_3.h5'' = Save ''m_3.h5''
      \<and> raised (on_epoch_end unsupported W 2 third) = None
      \<and> int (length early) < 3
      \<and> run unsupported I early = (I\<lparr>epochs_since_last_save := int (length early)\<rparr>, [])
      \<and> int (length early) + 1 = 3
      \<and> (0::int) < 5
      \<and> format_path unsupported (filepath I) (2 + 1) (logs_or_empty third) = Inr ''m_3.h5''
      \<and> logs_or_empty third ''val_loss'' = Some (Finite 0.4)
      \<and> fst (run unsupported I (early @ [(2, third)])) =
          I\<lparr>epochs_since_last_save := 0,
            tracker := [(float_mul (Finite 0.4) (coef I), 2 + 1, ''m_3.h5'')]\<rparr>
      \<and> file_ops (snd (run unsupported I (early @ [(2, third)]))) = [persist I ''m_3.h5'']"
proof -
  define I where "I = fst (init ''m.h5'' ''val_loss'' 0 5 False ''min'' 3)"
  define early where "early = [(0::int, Some [''val_loss'' \<mapsto> Finite 0.5]),
      (1, Some [''val_loss'' \<mapsto> Finite 0.3])]"
  define W where "W = fst (run unsupported I early)"
  define third where "third = Some [''val_loss'' \<mapsto> Finite 0.4]"
  define B where "B = fst (init ''w{x}.h5'' ''val_loss'' 0 5 False ''min'' 1)"
  note defs = I_def early_def W_def third_def B_def
  have a1: "epochs_since_last_save I + 1 < period I" unfolding defs by code_simp
  have b0: "epochs_since_last_save W = 2" unfolding defs by code_simp
  have b1: "epochs_since_last_save W + 1 \<ge> period W" unfolding defs by code_simp
  have c1: "epochs_since_last_save B + 1 \<ge> period B" unfolding defs by code_simp
  have c2: "format_path unsupported (filepath B) (0 + 1) (logs_or_empty third) = Inl (KeyError ''x'')"
    unfolding defs by code_simp
  have d2: "format_path unsupported (filepath W) (2 + 1) (logs_or_empty None) = Inr ''m_3.h5''"
    unfolding defs by code_simp
  have d3: "logs_or_empty None (monitor W) = None" unfolding defs by code_simp
  have e2: "format_path unsupported (filepath W) (2 + 1) (logs_or_empty third) = Inr ''m_3.h5''"
    unfolding defs by code_simp
  have e3: "logs_or_empty third (monitor W) = Some (Finite 0.4)" unfolding defs by code_simp
  have e4: "int (length (tracker W)) < n_models W" unfolding defs by code_simp
  have e5: "persist W ''m_3.h5'' = Save ''m_3.h5''" unfolding defs by code_simp
  have f1: "int (length early) < 3" unfolding defs by code_simp
  have g1: "int (length early) + 1 = 3" unfolding defs by code_simp
  have g2: "(0::int) < 5" by simp
  have g3: "format_path unsupported (filepath I) (2 + 1) (logs_or_empty third) = Inr ''m_3.h5''"
    unfolding defs by code_simp
  have g4: "logs_or_empty third ''val_loss'' = Some (Finite 0.4)" unfolding defs by code_simp
  note t1 = interval_gate[where self=I and R=unsupported and epoch=0
      and ?logs0.0="Some [''val_loss'' \<mapsto> Finite 0.5]", THEN conjunct1, THEN mp, OF a1]
  note t2 = interval_gate[where self=W and R=unsupported and epoch=2 and ?logs0.0=third,
      THEN conjunct2, THEN conjunct1, THEN mp, OF b1]
  note t3 = interval_gate[where self=B and R=unsupported and epoch=0 and ?logs0.0=third
      and e="KeyError ''x''",
      THEN conjunct2, THEN conjunct2, THEN conjunct1, THEN mp, OF conjI[OF c1 c2]]
  note t4 = interval_gate[where self=W and R=unsupported and epoch=2 and ?logs0.0=None
      and path="''m_3.h5''",
      THEN conjunct2, THEN conjunct2, THEN conjunct2, THEN conjunct1, THEN mp,
      OF conjI[OF b1 conjI[OF d2 d3]]]
  note t5 = interval_gate[where self=W and R=unsupported and epoch=2 and ?logs0.0=third
      and path="''m_3.h5''" and current="Finite 0.4",
      THEN conjunct2, THEN conjunct2, THEN conjunct2, THEN conjunct2, THEN conjunct1, THEN mp,
      OF conjI[OF b1 conjI[OF e2 conjI[OF e3 e4]]]]
  note t6 = interval_gate[where calls=early and k=3 and R=unsupported and fp="''m.h5''"
      and mon="''val_loss''" and vb=0 and n=5 and w=False and mode="''min''",
      THEN conjunct2, THEN conjunct2, THEN conjunct2, THEN conjunct2, THEN conjunct2,
      THEN conjunct1, THEN mp, OF f1, folded I_def]
  note t7 = interval_gate[where calls=early and k=3 and R=unsupported and fp="''m.h5''"
      and mon="''val_loss''" and vb=0 and n=5 and w=False and mode="''min''"
      and epoch=2 and ?logs0.0=third and path="''m_3.h5''" and current="Finite 0.4",
      THEN conjunct2, THEN conjunct2, THEN conjunct2, THEN conjunct2, THEN conjunct2,
      THEN conjunct2, THEN mp, folded I_def, OF conjI[OF g1 conjI[OF g2 conjI[OF g3 g4]]]]
  show ?thesis
    unfolding Let_def defs[symmetric]
    by (intro conjI) (rule a1 b0 b1 c1 c2 d2 d3 e2 e3 e4 e5 f1 g1 g2 g3 g4 t1 t2 t3 t4
        t5[THEN conjunct1] t5[THEN conjunct2, THEN conjunct1] t5[THEN conjunct2, THEN conjunct2]
        t6 t7[THEN conjunct1] t7[THEN conjunct2])+
qed

subsection \<open>A call without the monitored value\<close>

text \<open>
  Claim C6 says that every evaluated call whose logs lack the monitored key emits a warning,
  saves and removes nothing, leaves the tracker alone and resets the counter. The code
  formats the path before it looks the value up, so a template that names a key the logs
  lack raises before the warning. Here the path given to the constructor is
  \<^verbatim>\<open>weights.{val_loss:.2f}.hdf5\<close>, the logs are absent, and the first evaluated call
  raises \<^verbatim>\<open>KeyError\<close> with no warning among its effects.
\<close>

theorem missing_metric_counterexample:
  "epochs_since_last_save (fst (init ''weights.{val_loss:.2f}.hdf5'' ''val_loss'' 0 2 False ''min'' 1)) + 1
     \<ge> period (fst (init ''weights.{val_loss:.2f}.hdf5'' ''val_loss'' 0 2 False ''min'' 1))
   \<and> logs_or_empty None (monitor (fst (init ''weights.{val_loss:.2f}.hdf5'' ''val_loss'' 0 2 False ''min'' 1))) = None
   \<and> filepath (fst (init ''weights.{val_loss:.2f}.hdf5'' ''val_loss'' 0 2 False ''min'' 1))
       = ''weights.{val_loss:.2f}_{epoch:d}.hdf5''
   \<and> effects (on_epoch_end unsupported
        (fst (init ''weights.{val_loss:.2f}.hdf5'' ''val_loss'' 0 2 False ''min'' 1)) 0 None) = []
   \<and> raised (on_epoch_end unsupported
        (fst (init ''weights.{val_loss:.2f}.hdf5'' ''val_loss'' 0 2 False ''min'' 1)) 0 None)
       = Some (KeyError ''val_loss'')"
  by code_simp

text \<open>
  Claim C6, amended. For every evaluated call whose logs lack the monitored key: the
  counter is reset to 0 and nothing else of the instance changes, nothing is saved and
  nothing is removed; if the path template formats without error, the only effect is the
  warning and the call returns; if formatting raises, that exception propagates and the
  call has no effect.
\<close>

theorem missing_metric:
  assumes "epochs_since_last_save self + 1 \<ge> period self"
    and "logs_or_empty logs0 (monitor self) = None"
  shows "state (on_epoch_end R self epoch logs0) = self\<lparr>epochs_since_last_save := 0\<rparr>
     \<and> saved (effects (on_epoch_end R self epoch logs0)) = []
     \<and> removed (effects (on_epoch_end R self epoch logs0)) = []
     \<and> (case format_path R (filepath self) (epoch + 1) (logs_or_empty logs0) of
          Inr path \<Rightarrow>
            effects (on_epoch_end R self epoch logs0) =
              [Warn (''Can save best model only with '' @ monitor self @ '' available, skipping.'')]
            \<and> raised (on_epoch_end R self epoch logs0) = None
        | Inl e \<Rightarrow>
            effects (on_epoch_end R self epoch logs0) = []
            \<and> raised (on_epoch_end R self epoch logs0) = Some e)"
proof -
  from assms(1) have el: "eligible self" by (simp add: eligible_def)
  show ?thesis
  proof (cases "format_path R (filepath self) (epoch + 1) (logs_or_empty logs0)")
    case (Inl e)
    with on_epoch_end_format_error[OF el Inl] show ?thesis by simp
  next
    case (Inr path)
    with on_epoch_end_missing[OF el Inr assms(2)] show ?thesis by simp
  qed
qed

theorem missing_metric_witness:
  "epochs_since_last_save (fst (init ''m.h5'' ''val_loss'' 0 2 False ''min'' 1)) + 1
     \<ge> period (fst (init ''m.h5'' ''val_loss'' 0 2 False ''min'' 1))
   \<and> logs_or_empty (Some [''loss'' \<mapsto> Finite 0.5]) (monitor (fst (init ''m.h5'' ''val_loss'' 0 2 False ''min'' 1))) = None
   \<and> format_path unsupported (filepath (fst (init ''m.h5'' ''val_loss'' 0 2 False ''min'' 1))) (0 + 1)
        (logs_or_empty (Some [''loss'' \<mapsto> Finite 0.5])) = Inr ''m_1.h5''
   \<and> state (on_epoch_end unsupported (fst (init ''m.h5'' ''val_loss'' 0 2 False ''min'' 1)) 0 (Some [''loss'' \<mapsto> Finite 0.5]))
       = (fst (init ''m.h5'' ''val_loss'' 0 2 False ''min'' 1))\<lparr>epochs_since_last_save := 0\<rparr>
   \<and> effects (on_epoch_end unsupported (fst (init ''m.h5'' ''val_loss'' 0 2 False ''min'' 1)) 0 (Some [''loss'' \<mapsto> Finite 0.5]))
       = [Warn ''Can save best model only with val_loss available, skipping.'']
   \<and> raised (on_epoch_end unsupported (fst (init ''m.h5'' ''val_loss'' 0 2 False ''min'' 1)) 0 (Some [''loss'' \<mapsto> Finite 0.5]))
       = None"
proof -
  let ?self = "fst (init ''m.h5'' ''val_loss'' 0 2 False ''min'' 1)"
  let ?logs = "Some [''loss'' \<mapsto> Finite 0.5]"
  have 1: "epochs_since_last_save ?self + 1 \<ge> period ?self" by code_simp
  have 2: "logs_or_empty ?logs (monitor ?self) = None" by code_simp
  have 3: "format_path unsupported (filepath ?self) (0 + 1) (logs_or_empty ?logs) = Inr ''m_1.h5''"
    by code_simp
  have 4: "monitor ?self = ''val_loss''" by code_simp
  from missing_metric[OF 1 2, of unsupported 0] 1 2 3 4 show ?thesis by simp
qed

subsection \<open>The direction of the score\<close>

text \<open>
  Claim C7. The constructor fixes the coefficient: \<open>-1\<close> for mode \<^verbatim>\<open>min\<close>, \<open>1\<close> for
  mode \<^verbatim>\<open>max\<close>; for mode \<^verbatim>\<open>auto\<close>, \<open>1\<close> when the monitor's name contains
  \<^verbatim>\<open>acc\<close> or starts with \<^verbatim>\<open>fmeasure\<close> and \<open>-1\<close> otherwise. The three known modes
  warn of nothing; any other mode warns once and yields the very instance that
  \<^verbatim>\<open>auto\<close> yields. No call and no sequence of calls changes the coefficient, and every
  entry that a call adds to the tracker has as its score the monitored value of that call
  times the coefficient.
\<close>

theorem direction_coefficient:
  "coef (fst (init fp mon vb n w ''min'' per)) = - 1
   \<and> coef (fst (init fp mon vb n w ''max'' per)) = 1
   \<and> coef (fst (init fp mon vb n w ''auto'' per)) =
       (if (\<exists>a b. mon = a @ ''acc'' @ b) \<or> (\<exists>b. mon = ''fmeasure'' @ b) then 1 else - 1)
   \<and> (mode \<in> {''auto'', ''min'', ''max''} \<longrightarrow> snd (init fp mon vb n w mode per) = [])
   \<and> (mode \<notin> {''auto'', ''min'', ''max''} \<longrightarrow>
        init fp mon vb n w mode per =
          (fst (init fp mon vb n w ''auto'' per),
           [Warn (''ModelCheckpoint mode '' @ mode @ '' is unknown, fallback to auto mode.'')]))
   \<and> coef (state (on_epoch_end R self epoch logs0)) = coef self
   \<and> coef (fst (run R self calls)) = coef self
   \<and> (\<forall>x \<in> set (tracker (state (on_epoch_end R self epoch logs0))) - set (tracker self).
        \<exists>current. logs_or_empty logs0 (monitor self) = Some current
          \<and> fst x = float_mul current (coef self))"
proof -
  have "\<forall>x \<in> set (tracker (state (on_epoch_end R self epoch logs0))) - set (tracker self).
        \<exists>current. logs_or_empty logs0 (monitor self) = Some current \<and> fst x = float_mul current (coef self)"
  proof
    fix x assume "x \<in> set (tracker (state (on_epoch_end R self epoch logs0))) - set (tracker self)"
    then have "x \<in> set (tracker (state (on_epoch_end R self epoch logs0)))" "x \<notin> set (tracker self)"
      by simp_all
    from new_entries[OF this] show "\<exists>current. logs_or_empty logs0 (monitor self) = Some current
        \<and> fst x = float_mul current (coef self)" by auto
  qed
  then show ?thesis
    using init_known_mode[of mode fp mon vb n w per] init_unknown_mode[of mode fp mon vb n w per]
    by (simp add: init_coef on_epoch_end_config run_coef contains_iff startswith_iff)
qed

theorem direction_coefficient_witness:
  "''auto'' \<in> {''auto'', ''min'', ''max''}
   \<and> snd (init ''m.h5'' ''val_acc'' 0 2 False ''auto'' 1) = []
   \<and> ''bogus'' \<notin> {''auto'', ''min'', ''max''}
   \<and> init ''m.h5'' ''val_acc'' 0 2 False ''bogus'' 1 =
       (fst (init ''m.h5'' ''val_acc'' 0 2 False ''auto'' 1),
        [Warn ''ModelCheckpoint mode bogus is unknown, fallback to auto mode.''])
   \<and> coef (fst (init ''m.h5'' ''val_acc'' 0 2 False ''auto'' 1)) = 1
   \<and> (Finite (- 0.5), 1, ''m_1.h5'') \<in>
       set (tracker (state (on_epoch_end unsupported
              (fst (init ''m.h5'' ''val_loss'' 0 2 False ''min'' 1)) 0 (Some [''val_loss'' \<mapsto> Finite 0.5]))))
       - set (tracker (fst (init ''m.h5'' ''val_loss'' 0 2 False ''min'' 1)))
   \<and> (\<exists>current. logs_or_empty (Some [''val_loss'' \<mapsto> Finite 0.5])
          (monitor (fst (init ''m.h5'' ''val_loss'' 0 2 False ''min'' 1))) = Some current
        \<and> fst (Finite (- 0.5), 1::int, ''m_1.h5'') =
            float_mul current (coef (fst (init ''m.h5'' ''val_loss'' 0 2 False ''min'' 1))))"
proof -
  let ?self = "fst (init ''m.h5'' ''val_loss'' 0 2 False ''min'' 1)"
  let ?logs = "Some [''val_loss'' \<mapsto> Finite 0.5]"
  note dc = direction_coefficient[where fp="''m.h5''" and mon="''val_acc''" and vb=0 and n=2
      and w=False and per=1 and R=unsupported and self="?self" and epoch=0 and ?logs0.0="?logs"
      and calls="[]"]
  have k: "''auto'' \<in> {''auto'', ''min'', ''max''}" by simp
  have u: "''bogus'' \<notin> {''auto'', ''min'', ''max''}" by simp
  have m: "(Finite (- 0.5), 1, ''m_1.h5'') \<in>
       set (tracker (state (on_epoch_end unsupported ?self 0 ?logs))) - set (tracker ?self)"
    by code_simp
  have c: "coef (fst (init ''m.h5'' ''val_acc'' 0 2 False ''auto'' 1)) = 1" by code_simp
  from dc[where mode="''auto''"] k have 1: "snd (init ''m.h5'' ''val_acc'' 0 2 False ''auto'' 1) = []"
    by blast
  from dc[where mode="''bogus''"] u have 2: "init ''m.h5'' ''val_acc'' 0 2 False ''bogus'' 1 =
       (fst (init ''m.h5'' ''val_acc'' 0 2 False ''auto'' 1),
        [Warn (''ModelCheckpoint mode '' @ ''bogus'' @ '' is unknown, fallback to auto mode.'')])"
    by blast
  note ball = dc[where mode="''auto''", THEN conjunct2, THEN conjunct2, THEN conjunct2,
      THEN conjunct2, THEN conjunct2, THEN conjunct2, THEN conjunct2]
  from bspec[OF ball m] have 3: "\<exists>current. logs_or_empty ?logs (monitor ?self) = Some current
        \<and> fst (Finite (- 0.5), 1::int, ''m_1.h5'') = float_mul current (coef ?self)" .
  from 2 have w2: "init ''m.h5'' ''val_acc'' 0 2 False ''bogus'' 1 =
       (fst (init ''m.h5'' ''val_acc'' 0 2 False ''auto'' 1),
        [Warn ''ModelCheckpoint mode bogus is unknown, fallback to auto mode.''])"
    by simp
  show ?thesis
    by (intro conjI) (rule k u m c 1 w2 3)+
qed

subsection \<open>A run with two retained checkpoints\<close>

text \<open>
  Claim C8. With \<open>n_models = 2\<close>, mode \<^verbatim>\<open>min\<close>, monitor \<^verbatim>\<open>val_loss\<close> and period 1,
  the epochs report 0.5, 0.3, 0.4 and 0.6. The first two calls save their checkpoints and the
  pool holds the monitored values 0.5, then 0.5 and 0.3. The third call removes the file of
  epoch 1 and then saves its own, leaving 0.4 and 0.3. The fourth call is discarded: no
  effect, no exception, the tracker as the third call left it. The path is
  \<^verbatim>\<open>model.h5\<close>, printing is off and full models are saved.
\<close>

theorem scenario_top_two:
  "let self0 = fst (init ''model.h5'' ''val_loss'' 0 2 False ''min'' 1);
       out1 = on_epoch_end R self0 0 (Some [''val_loss'' \<mapsto> Finite 0.5]);
       out2 = on_epoch_end R (state out1) 1 (Some [''val_loss'' \<mapsto> Finite 0.3]);
       out3 = on_epoch_end R (state out2) 2 (Some [''val_loss'' \<mapsto> Finite 0.4]);
       out4 = on_epoch_end R (state out3) 3 (Some [''val_loss'' \<mapsto> Finite 0.6])
   in raw_scores (state out1) = [Finite 0.5] \<and> effects out1 = [Save ''model_1.h5'']
    \<and> raw_scores (state out2) = [Finite 0.5, Finite 0.3] \<and> effects out2 = [Save ''model_2.h5'']
    \<and> raw_scores (state out3) = [Finite 0.4, Finite 0.3]
    \<and> effects out3 = [Remove ''model_1.h5'', Save ''model_3.h5'']
    \<and> tracker (state out2) = [(Finite (- 0.5), 1, ''model_1.h5''), (Finite (- 0.3), 2, ''model_2.h5'')]
    \<and> tracker (state out3) = [(Finite (- 0.4), 3, ''model_3.h5''), (Finite (- 0.3), 2, ''model_2.h5'')]
    \<and> effects out4 = [] \<and> raised out4 = None \<and> tracker (state out4) = tracker (state out3)"
  by code_simp

subsection \<open>The path template\<close>




subsection \<open>A pool of capacity zero\<close>

text \<open>
  Claim C10 says that with \<open>n_models = 0\<close> nothing is ever saved or removed and the tracker
  stays empty, because \<^verbatim>\<open>heappushpop\<close> on the empty list hands the candidate back and it
  is discarded. The first half holds: the list stays empty and the candidate is handed back.
  But a candidate whose score is NaN is not equal to the tuple rebuilt at line 87, so the
  call, with printing off, removes the candidate's path and saves to it.
\<close>

theorem nan_with_zero_models:
  "let start = fst (init ''m.h5'' ''val_loss'' 0 0 False ''min'' 1);
       out = on_epoch_end unsupported start 0 (Some [''val_loss'' \<mapsto> NaN])
   in n_models start = 0
      \<and> tracker start = []
      \<and> heappushpop entry_lt [] (NaN, 1, ''m_1.h5'') = ((NaN, 1, ''m_1.h5''), [])
      \<and> entry_eq (NaN, 1, ''m_1.h5'') (NaN, 1, ''m_1.h5'') = False
      \<and> tracker (state out) = []
      \<and> effects out = [Remove ''m_1.h5'', Save ''m_1.h5'']
      \<and> raised out = None"
  by code_simp

end
